theory Spec2Isabelle
  imports Main "HOL-Library.Sublist" "HOL-Library.Multiset" "HOL-Library.Char_ord"
    "HOL-Library.List_Lexorder"
begin

section \<open>Python string primitives used by the program\<close>

text \<open>
  Strings are lists of 8-bit characters, read as the code points 0 to 255. On this range
  \<^verbatim>\<open>str.strip()\<close>, \<^verbatim>\<open>str.isspace()\<close> and the regular expression \<^verbatim>\<open>\s\<close> share one
  whitespace class: the code points 9 to 13, 28 to 31, 32, 133 (U+0085) and 160
  (U+00A0). Code points from 256 on are outside this model.
\<close>

definition isspace :: "char \<Rightarrow> bool" where
  "isspace c =
     (let n = (of_char c :: nat)
      in (9 \<le> n \<and> n \<le> 13) \<or> (28 \<le> n \<and> n \<le> 31) \<or> n = 32 \<or> n = 133 \<or> n = 160)"

text \<open>\<^verbatim>\<open>s.strip()\<close>: leading whitespace is dropped, then trailing whitespace.\<close>

definition lstrip :: "string \<Rightarrow> string" where
  "lstrip s = dropWhile isspace s"

definition rstrip :: "string \<Rightarrow> string" where
  "rstrip s = rev (dropWhile isspace (rev s))"

definition strip :: "string \<Rightarrow> string" where
  "strip s = rstrip (lstrip s)"

text \<open>
  \<^verbatim>\<open>re.sub(r'\s+', ' ', s)\<close>, which is what \<^verbatim>\<open>.str.replace(r'\s+', ' ', regex=True)\<close>
  applies to every cell: scanning from the left, each maximal run of whitespace becomes
  one space character.
\<close>

function collapse_ws :: "string \<Rightarrow> string" where
  "collapse_ws [] = []"
| "collapse_ws (c # cs) =
     (if isspace c then CHR '' '' # collapse_ws (dropWhile isspace cs)
      else c # collapse_ws cs)"
  by pat_completeness auto
termination
  by (relation "measure length") (auto simp: length_dropWhile_le less_Suc_eq_le)

text \<open>
  \<^verbatim>\<open>s.lower()\<close> on the code points 0 to 255: the letters A to Z, and the capital letters
  U+00C0 to U+00DE but for the multiplication sign U+00D7, go to the code point 32 above
  them; every other character stays.
\<close>

definition upper_chars :: string where
  "upper_chars =
     ''ABCDEFGHIJKLMNOPQRSTUVWXYZ''
     @ [CHR 0xC0, CHR 0xC1, CHR 0xC2, CHR 0xC3, CHR 0xC4, CHR 0xC5, CHR 0xC6, CHR 0xC7,
        CHR 0xC8, CHR 0xC9, CHR 0xCA, CHR 0xCB, CHR 0xCC, CHR 0xCD, CHR 0xCE, CHR 0xCF,
        CHR 0xD0, CHR 0xD1, CHR 0xD2, CHR 0xD3, CHR 0xD4, CHR 0xD5, CHR 0xD6, CHR 0xD8,
        CHR 0xD9, CHR 0xDA, CHR 0xDB, CHR 0xDC, CHR 0xDD, CHR 0xDE]"

definition lower_chars :: string where
  "lower_chars =
     ''abcdefghijklmnopqrstuvwxyz''
     @ [CHR 0xE0, CHR 0xE1, CHR 0xE2, CHR 0xE3, CHR 0xE4, CHR 0xE5, CHR 0xE6, CHR 0xE7,
        CHR 0xE8, CHR 0xE9, CHR 0xEA, CHR 0xEB, CHR 0xEC, CHR 0xED, CHR 0xEE, CHR 0xEF,
        CHR 0xF0, CHR 0xF1, CHR 0xF2, CHR 0xF3, CHR 0xF4, CHR 0xF5, CHR 0xF6, CHR 0xF8,
        CHR 0xF9, CHR 0xFA, CHR 0xFB, CHR 0xFC, CHR 0xFD, CHR 0xFE]"

definition lower_char :: "char \<Rightarrow> char" where
  "lower_char c = (case map_of (zip upper_chars lower_chars) c of None \<Rightarrow> c | Some d \<Rightarrow> d)"

definition lower :: "string \<Rightarrow> string" where
  "lower s = map lower_char s"

text \<open>\<^verbatim>\<open>placeholder in text\<close>: the substring test.\<close>

fun str_in :: "string \<Rightarrow> string \<Rightarrow> bool" where
  "str_in p [] = (p = [])"
| "str_in p (c # cs) = (prefix p (c # cs) \<or> str_in p cs)"

text \<open>
  \<^verbatim>\<open>s.replace(old, new)\<close>: the occurrences of \<open>old\<close> are found from the left and do
  not overlap. With an empty \<open>old\<close>, Python puts \<open>new\<close> before every character and at
  the end.
\<close>

function replace_str :: "string \<Rightarrow> string \<Rightarrow> string \<Rightarrow> string" where
  "replace_str old new [] = (if old = [] then new else [])"
| "replace_str old new (c # cs) =
     (if old = [] then new @ c # replace_str old new cs
      else if prefix old (c # cs)
        then new @ replace_str old new (drop (length old) (c # cs))
      else c # replace_str old new cs)"
  by pat_completeness auto
termination
  by (relation "measure (\<lambda>(old, new, s). length s)") auto

text \<open>\<^verbatim>\<open>s.split(d)\<close> for a one-character separator, and \<^verbatim>\<open>sep.join(xs)\<close>.\<close>

fun split_on :: "char \<Rightarrow> string \<Rightarrow> string list" where
  "split_on d [] = [[]]"
| "split_on d (c # cs) =
     (if c = d then [] # split_on d cs
      else (case split_on d cs of [] \<Rightarrow> [[c]] | x # xs \<Rightarrow> (c # x) # xs))"

fun join :: "string \<Rightarrow> string list \<Rightarrow> string" where
  "join sep [] = []"
| "join sep [x] = x"
| "join sep (x # y # ys) = x @ sep @ join sep (y # ys)"

text \<open>\<^verbatim>\<open>str(n)\<close> for a natural number: its decimal digits.\<close>

fun str_nat :: "nat \<Rightarrow> string" where
  "str_nat n =
     (if n < 10 then [''0123456789'' ! n]
      else str_nat (n div 10) @ [''0123456789'' ! (n mod 10)])"

declare str_nat.simps [simp del]

text \<open>
  \<^verbatim>\<open>xs.index(x)\<close> where \<open>x\<close> is an element of \<open>xs\<close>, the only way the program calls
  it (the element comes from iterating over the same list): the first position of \<open>x\<close>.
\<close>

definition index_of :: "'a list \<Rightarrow> 'a \<Rightarrow> nat" where
  "index_of xs x = length (takeWhile (\<lambda>y. y \<noteq> x) xs)"

section \<open>The spreadsheet table and its grouping\<close>

text \<open>
  \<^verbatim>\<open>pd.read_excel(..., dtype=str)\<close> gives every cell as text or as the missing-value
  marker NaN. A row maps a column name to its cell; \<open>None\<close> is a column the frame
  does not have. The frame carries its column names, already stripped by
  \<^verbatim>\<open>df.columns = df.columns.str.strip()\<close>, and its rows in sheet order; the position of
  a row is its index label.
\<close>

datatype cell = NaN | Str string

type_synonym row = "string \<rightharpoonup> cell"

record dataframe =
  columns :: "string list"
  rows :: "row list"

text \<open>\<^verbatim>\<open>str(v)\<close> of a cell: NaN prints as \<^verbatim>\<open>nan\<close>.\<close>

fun str_cell :: "cell \<Rightarrow> string" where
  "str_cell NaN = ''nan''"
| "str_cell (Str s) = s"

text \<open>\<^verbatim>\<open>row.get(col, default)\<close>.\<close>

definition row_get :: "row \<Rightarrow> string \<Rightarrow> cell \<Rightarrow> cell" where
  "row_get r col dflt = (case r col of None \<Rightarrow> dflt | Some v \<Rightarrow> v)"

text \<open>
  Lines 290 and 291 of \<^verbatim>\<open>generate_documents\<close> on one cell of the grouping column:
  \<^verbatim>\<open>.fillna('').astype(str).str.strip()\<close>, then the whitespace collapse.
\<close>

definition fillna_str :: "cell option \<Rightarrow> string" where
  "fillna_str v = (case v of Some (Str s) \<Rightarrow> s | _ \<Rightarrow> [])"

definition normalize_ring :: "string \<Rightarrow> string" where
  "normalize_ring s = collapse_ws (strip s)"

definition normalize_ring_col :: "string \<Rightarrow> dataframe \<Rightarrow> dataframe" where
  "normalize_ring_col ring_col df =
     df\<lparr>rows := map (\<lambda>r. r(ring_col \<mapsto> Str (normalize_ring (fillna_str (r ring_col))))) (rows df)\<rparr>"

text \<open>
  \<^verbatim>\<open>df.groupby(col)\<close> with pandas' defaults: rows whose key is NaN are left out
  (\<^verbatim>\<open>dropna=True\<close>), the groups come in ascending order of their keys
  (\<^verbatim>\<open>sort=True\<close>), and the rows of a group keep their index labels and their order.
\<close>

definition group_key :: "string \<Rightarrow> row \<Rightarrow> string option" where
  "group_key col r = (case r col of Some (Str k) \<Rightarrow> Some k | _ \<Rightarrow> None)"

definition group_keys :: "string \<Rightarrow> dataframe \<Rightarrow> string list" where
  "group_keys col df = sort (remdups (List.map_filter (group_key col) (rows df)))"

definition groupby :: "string \<Rightarrow> dataframe \<Rightarrow> (string \<times> (nat \<times> row) list) list" where
  "groupby col df =
     map (\<lambda>k. (k, filter (\<lambda>ir. group_key col (snd ir) = Some k) (enumerate 0 (rows df))))
       (group_keys col df)"

section \<open>The word-processing document\<close>

text \<open>
  What the program reads and writes of a \<^verbatim>\<open>python-docx\<close> document. A run is a span of
  text with its own formatting and holds one text node (\<^verbatim>\<open>w:t\<close>), or it holds an
  inline picture (the image file and the width in EMU) and has the empty text. Setting
  \<^verbatim>\<open>run.text\<close> replaces what the run held by the new text. A paragraph is the list
  of its runs, \<^verbatim>\<open>para.text\<close> their concatenated texts. Fonts and sizes are not
  modelled.

  \<^verbatim>\<open>doc.paragraphs\<close> and \<^verbatim>\<open>doc.tables\<close> are the top-level paragraphs and tables of
  the body. The field \<open>floating\<close> holds the paragraphs of the body that only the raw
  tree reaches (text boxes, floating and nested tables). A header or footer part is
  given by the paragraphs below its element; the parts of different sections are taken
  to be distinct elements.
\<close>

datatype run = TextRun string | PictureRun string int

fun run_text :: "run \<Rightarrow> string" where
  "run_text (TextRun s) = s"
| "run_text (PictureRun path width) = []"

type_synonym docx_paragraph = "run list"

definition para_text :: "docx_paragraph \<Rightarrow> string" where
  "para_text para = concat (map run_text para)"

type_synonym tcell = "docx_paragraph list"

type_synonym trow = "tcell list"

record table =
  style :: string
  autofit :: bool
  grid_cols :: nat
  trows :: "trow list"

record docx_section =
  header :: "docx_paragraph list"
  first_page_header :: "docx_paragraph list"
  even_page_header :: "docx_paragraph list"
  footer :: "docx_paragraph list"
  first_page_footer :: "docx_paragraph list"
  even_page_footer :: "docx_paragraph list"

record document =
  paragraphs :: "docx_paragraph list"
  tables :: "table list"
  floating :: "docx_paragraph list"
  sections :: "docx_section list"

text \<open>\<^verbatim>\<open>cell.text\<close>: the texts of the cell's paragraphs, joined by newlines.\<close>

definition cell_text :: "tcell \<Rightarrow> string" where
  "cell_text c = join [CHR 0x0A] (map para_text c)"

text \<open>The paragraphs of all cells of a table, and a change applied to each of them.\<close>

definition table_paragraphs :: "table \<Rightarrow> docx_paragraph list" where
  "table_paragraphs t = concat (concat (trows t))"

definition map_table :: "(docx_paragraph \<Rightarrow> docx_paragraph) \<Rightarrow> table \<Rightarrow> table" where
  "map_table f t = t\<lparr>trows := map (map (map f)) (trows t)\<rparr>"

section \<open>Placeholder substitution\<close>

text \<open>
  \<^verbatim>\<open>xpath_replace(element, placeholder, replacement)\<close>: every text node below the
  element whose text is not empty and contains the placeholder gets
  \<^verbatim>\<open>node.text.replace(placeholder, replacement)\<close>; the count is the number of such
  nodes. An element is given by the paragraphs below it.
\<close>

definition node_hit :: "string \<Rightarrow> string \<Rightarrow> bool" where
  "node_hit placeholder t = (t \<noteq> [] \<and> str_in placeholder t)"

fun xpath_run :: "string \<Rightarrow> string \<Rightarrow> run \<Rightarrow> run" where
  "xpath_run placeholder replacement (TextRun t) =
     (if node_hit placeholder t then TextRun (replace_str placeholder replacement t)
      else TextRun t)"
| "xpath_run placeholder replacement (PictureRun path width) = PictureRun path width"

fun text_nodes_of_run :: "run \<Rightarrow> string list" where
  "text_nodes_of_run (TextRun t) = [t]"
| "text_nodes_of_run (PictureRun path width) = []"

definition text_nodes :: "docx_paragraph list \<Rightarrow> string list" where
  "text_nodes element = concat (map text_nodes_of_run (concat element))"

definition xpath_replace :: "docx_paragraph list \<Rightarrow> string \<Rightarrow> string \<Rightarrow> nat \<times> docx_paragraph list" where
  "xpath_replace element placeholder replacement =
     (length (filter (node_hit placeholder) (text_nodes element)),
      map (map (xpath_run placeholder replacement)) element)"

text \<open>
  \<^verbatim>\<open>replace_placeholder_in_paragraph(para, placeholder, replacement)\<close>. The first loop
  rewrites the first run that holds the whole placeholder and returns at once. Only
  when no run holds it, the second loop puts the rewritten paragraph text into the first
  run and the empty text into every other run.
\<close>

fun replace_in_first_run :: "string \<Rightarrow> string \<Rightarrow> run list \<Rightarrow> run list option" where
  "replace_in_first_run placeholder replacement [] = None"
| "replace_in_first_run placeholder replacement (r # rs) =
     (if run_text r \<noteq> [] \<and> str_in placeholder (run_text r)
      then Some (TextRun (replace_str placeholder replacement (run_text r)) # rs)
      else map_option ((#) r) (replace_in_first_run placeholder replacement rs))"

definition replace_placeholder_in_paragraph ::
  "docx_paragraph \<Rightarrow> string \<Rightarrow> string \<Rightarrow> bool \<times> docx_paragraph" where
  "replace_placeholder_in_paragraph para placeholder replacement =
     (let full_text = concat (map run_text para) in
      if \<not> str_in placeholder full_text then (False, para)
      else (case replace_in_first_run placeholder replacement para of
              Some para' \<Rightarrow> (True, para')
            | None \<Rightarrow>
                (let new_text = replace_str placeholder replacement full_text in
                 (True, (case para of [] \<Rightarrow> []
                         | r # rs \<Rightarrow> TextRun new_text # map (\<lambda>r'. TextRun []) rs)))))"

text \<open>
  \<^verbatim>\<open>global_replace(doc, placeholder, replacement)\<close>: the body paragraphs, the paragraphs
  of the table cells, the raw tree of the body, then the three header and three footer
  parts of every section. It returns the count and leaves the document changed.
\<close>

definition DOC_TITLE :: string where
  "DOC_TITLE = ''{{DOC_TITLE}}''"

definition replace_step :: "string \<Rightarrow> string \<Rightarrow> docx_paragraph \<Rightarrow> bool \<times> docx_paragraph" where
  "replace_step placeholder replacement para =
     (if str_in placeholder (para_text para)
      then replace_placeholder_in_paragraph para placeholder replacement
      else (False, para))"

definition count_true :: "bool list \<Rightarrow> nat" where
  "count_true bs = length (filter id bs)"

definition xpath_section :: "string \<Rightarrow> string \<Rightarrow> docx_section \<Rightarrow> nat \<times> docx_section" where
  "xpath_section placeholder replacement sec =
     (let (n1, h1) = xpath_replace (header sec) placeholder replacement;
          (n2, h2) = xpath_replace (first_page_header sec) placeholder replacement;
          (n3, h3) = xpath_replace (even_page_header sec) placeholder replacement;
          (n4, f1) = xpath_replace (footer sec) placeholder replacement;
          (n5, f2) = xpath_replace (first_page_footer sec) placeholder replacement;
          (n6, f3) = xpath_replace (even_page_footer sec) placeholder replacement
      in (n1 + n2 + n3 + n4 + n5 + n6,
          sec\<lparr>header := h1, first_page_header := h2, even_page_header := h3,
              footer := f1, first_page_footer := f2, even_page_footer := f3\<rparr>))"

definition global_replace :: "document \<Rightarrow> string \<Rightarrow> string \<Rightarrow> nat \<times> document" where
  "global_replace doc placeholder replacement =
     (let step = replace_step placeholder replacement;
          xrun = map (xpath_run placeholder replacement);
          ps1 = map (snd \<circ> step) (paragraphs doc);
          c1 = count_true (map (fst \<circ> step) (paragraphs doc));
          ts1 = map (map_table (snd \<circ> step)) (tables doc);
          c2 = count_true (map (fst \<circ> step) (concat (map table_paragraphs (tables doc))));
          c3 = fst (xpath_replace ps1 placeholder replacement)
             + fst (xpath_replace (concat (map table_paragraphs ts1)) placeholder replacement)
             + fst (xpath_replace (floating doc) placeholder replacement);
          secs = map (xpath_section placeholder replacement) (sections doc)
      in (c1 + c2 + c3 + sum_list (map fst secs),
          \<lparr>paragraphs = map xrun ps1,
           tables = map (map_table xrun) ts1,
           floating = map xrun (floating doc),
           sections = map snd secs\<rparr>))"

section \<open>The topology image\<close>

text \<open>
  Lines 360 to 388 of \<^verbatim>\<open>generate_documents\<close>. At a paragraph whose text contains the
  image placeholder the program calls \<^verbatim>\<open>para.clear()\<close>, \<^verbatim>\<open>para.add_run()\<close> and
  \<^verbatim>\<open>run.add_picture(path, width)\<close>. When \<^verbatim>\<open>add_picture\<close> raises (the flag \<open>ok\<close> is
  false), the paragraph is left with its new empty run and the enclosing \<^verbatim>\<open>try\<close> ends
  the whole search. \<^verbatim>\<open>Inches(6)\<close> is 5486400 EMU, \<^verbatim>\<open>Inches(5.5)\<close> is 5029200 EMU.
\<close>

definition TOPOLOGY_IMAGE :: string where
  "TOPOLOGY_IMAGE = ''{{TOPOLOGY_IMAGE}}''"

datatype insert_state = Searching | Inserted | Raised

definition put_picture :: "bool \<Rightarrow> string \<Rightarrow> int \<Rightarrow> insert_state \<times> docx_paragraph" where
  "put_picture ok path width =
     (if ok then (Inserted, [PictureRun path width]) else (Raised, [TextRun []]))"

text \<open>
  \<^verbatim>\<open>for para in ...: if '{{TOPOLOGY_IMAGE}}' in para.text: ...; break\<close>, the loop over
  \<^verbatim>\<open>doc.paragraphs\<close> and over the paragraphs of one cell.
\<close>

fun insert_in_paragraphs ::
  "bool \<Rightarrow> string \<Rightarrow> int \<Rightarrow> docx_paragraph list \<Rightarrow> insert_state \<times> docx_paragraph list" where
  "insert_in_paragraphs ok path width [] = (Searching, [])"
| "insert_in_paragraphs ok path width (p # ps) =
     (if str_in TOPOLOGY_IMAGE (para_text p)
      then (let (st, p') = put_picture ok path width in (st, p' # ps))
      else (let (st, ps') = insert_in_paragraphs ok path width ps in (st, p # ps')))"

text \<open>
  \<^verbatim>\<open>for cell in row.cells\<close>: this loop has no test of \<^verbatim>\<open>image_inserted\<close>, so every
  cell of the row is searched, whatever happened in the cells before it.
\<close>

fun insert_in_cells ::
  "bool \<Rightarrow> string \<Rightarrow> insert_state \<Rightarrow> tcell list \<Rightarrow> insert_state \<times> tcell list" where
  "insert_in_cells ok path st [] = (st, [])"
| "insert_in_cells ok path st (c # cs) =
     (let (st1, c') = insert_in_paragraphs ok path 5029200 c;
          st' = (if st1 = Searching then st else st1)
      in if st' = Raised then (Raised, c' # cs)
         else (let (st2, cs') = insert_in_cells ok path st' cs in (st2, c' # cs')))"

text \<open>\<^verbatim>\<open>for row in table.rows: if image_inserted: break\<close>.\<close>

fun insert_in_rows ::
  "bool \<Rightarrow> string \<Rightarrow> insert_state \<Rightarrow> trow list \<Rightarrow> insert_state \<times> trow list" where
  "insert_in_rows ok path st [] = (st, [])"
| "insert_in_rows ok path st (r # rs) =
     (if st \<noteq> Searching then (st, r # rs)
      else (let (st1, r') = insert_in_cells ok path st r;
                (st2, rs') = insert_in_rows ok path st1 rs
            in (st2, r' # rs')))"

text \<open>\<^verbatim>\<open>for table in doc.tables: if image_inserted: break\<close>.\<close>

fun insert_in_tables ::
  "bool \<Rightarrow> string \<Rightarrow> insert_state \<Rightarrow> table list \<Rightarrow> insert_state \<times> table list" where
  "insert_in_tables ok path st [] = (st, [])"
| "insert_in_tables ok path st (t # ts) =
     (if st \<noteq> Searching then (st, t # ts)
      else (let (st1, rs') = insert_in_rows ok path st (trows t);
                (st2, ts') = insert_in_tables ok path st1 ts
            in (st2, t\<lparr>trows := rs'\<rparr> # ts')))"

definition insert_topology_image :: "bool \<Rightarrow> string \<Rightarrow> document \<Rightarrow> document" where
  "insert_topology_image ok path doc =
     (let (st, ps') = insert_in_paragraphs ok path 5486400 (paragraphs doc) in
      if st \<noteq> Searching then doc\<lparr>paragraphs := ps'\<rparr>
      else doc\<lparr>tables := snd (insert_in_tables ok path Searching (tables doc))\<rparr>)"

text \<open>The number of embedded pictures of a document.\<close>

fun is_picture :: "run \<Rightarrow> bool" where
  "is_picture (PictureRun path width) = True"
| "is_picture (TextRun t) = False"

definition pictures_in :: "docx_paragraph list \<Rightarrow> nat" where
  "pictures_in ps = length (filter is_picture (concat ps))"

definition section_paragraphs :: "docx_section \<Rightarrow> docx_paragraph list" where
  "section_paragraphs sec =
     header sec @ first_page_header sec @ even_page_header sec
     @ footer sec @ first_page_footer sec @ even_page_footer sec"

definition all_paragraphs :: "document \<Rightarrow> docx_paragraph list" where
  "all_paragraphs doc =
     paragraphs doc @ concat (map table_paragraphs (tables doc)) @ floating doc
     @ concat (map section_paragraphs (sections doc))"

definition embedded_pictures :: "document \<Rightarrow> nat" where
  "embedded_pictures doc = pictures_in (all_paragraphs doc)"

section \<open>Filling the data table\<close>

text \<open>
  Lines 396 to 435 of \<^verbatim>\<open>generate_documents\<close>. The target is the first table that has
  a row and whose first row's cell texts, joined by spaces, contain the keyword.
\<close>

definition is_target :: "string \<Rightarrow> table \<Rightarrow> bool" where
  "is_target keyword t =
     (case trows t of [] \<Rightarrow> False
      | r # rs \<Rightarrow> str_in keyword (join '' '' (map cell_text r)))"

fun find_target :: "string \<Rightarrow> table list \<Rightarrow> nat option" where
  "find_target keyword [] = None"
| "find_target keyword (t # ts) =
     (if is_target keyword t then Some 0 else map_option Suc (find_target keyword ts))"

text \<open>
  \<^verbatim>\<open>for i in range(len(target_table.rows)-1, 0, -1)\<close>: the rows are removed one by one,
  from the last one down to the row of index 1. Row 0 is never visited.
\<close>

definition remove_row :: "nat \<Rightarrow> trow list \<Rightarrow> trow list" where
  "remove_row i rs = take i rs @ drop (Suc i) rs"

definition clear_body_rows :: "trow list \<Rightarrow> trow list" where
  "clear_body_rows rs = fold remove_row (rev [1 ..< length rs]) rs"

text \<open>
  The program has no parameter for the height of the header: the loop above stops before
  index 0, so the header of the target table is its first row and nothing else.
\<close>

definition header_row_count :: nat where
  "header_row_count = 1"

text \<open>
  \<^verbatim>\<open>cell.text = s\<close> leaves one paragraph with one run in the cell. The cells of a row
  made by \<^verbatim>\<open>add_row()\<close>, one per grid column, hold one paragraph with no run.
\<close>

definition set_cell_text :: "string \<Rightarrow> tcell" where
  "set_cell_text s = [[TextRun s]]"

definition nan_guard :: "string \<Rightarrow> string" where
  "nan_guard val = (if lower val = ''nan'' then [] else val)"

definition fill_row :: "string list \<Rightarrow> nat list \<Rightarrow> nat \<times> row \<Rightarrow> tcell list \<Rightarrow> tcell list" where
  "fill_row cols_to_fill index ir row_cells =
     (let numbered = (length row_cells > length cols_to_fill);
          start_data_idx = (if numbered then 1 else 0);
          cells0 = (if numbered
                    then row_cells[0 := set_cell_text (str_nat (index_of index (fst ir) + 1))]
                    else row_cells)
      in fold (\<lambda>(i, col_name) cs.
                 if start_data_idx + i < length cs
                 then cs[start_data_idx + i :=
                           set_cell_text (nan_guard (str_cell (row_get (snd ir) col_name (Str []))))]
                 else cs)
              (enumerate 0 cols_to_fill) cells0)"

definition add_row :: "table \<Rightarrow> tcell list" where
  "add_row t = replicate (grid_cols t) [[]]"

definition reset_table_width :: "table \<Rightarrow> table" where
  "reset_table_width t = t\<lparr>autofit := True\<rparr>"

definition materialize :: "string list \<Rightarrow> (nat \<times> row) list \<Rightarrow> table \<Rightarrow> table" where
  "materialize cols_to_fill group_data target_table =
     (let t1 = target_table\<lparr>style := ''Table Grid''\<rparr>;
          t2 = t1\<lparr>trows := clear_body_rows (trows t1)\<rparr>;
          index = map fst group_data;
          t3 = fold (\<lambda>ir t. t\<lparr>trows := trows t @ [fill_row cols_to_fill index ir (add_row t)]\<rparr>)
                 group_data t2
      in reset_table_width t3)"

definition fill_target_table :: "string \<Rightarrow> string list \<Rightarrow> (nat \<times> row) list \<Rightarrow> document \<Rightarrow> document" where
  "fill_target_table keyword cols_to_fill group_data doc =
     (case find_target keyword (tables doc) of
        None \<Rightarrow> doc
      | Some k \<Rightarrow> doc\<lparr>tables := (tables doc)[k := materialize cols_to_fill group_data (tables doc ! k)]\<rparr>)"

section \<open>The document pipeline\<close>

text \<open>
  One entry of the \<^verbatim>\<open>scopes\<close> object of the configuration file. The optional keys
  \<^verbatim>\<open>region_col\<close> and \<^verbatim>\<open>ring_121_col\<close> may be absent; \<^verbatim>\<open>has_topology_image\<close>
  is read with the default \<^verbatim>\<open>False\<close>.
\<close>

record scope_cfg =
  template_file :: string
  excel_sheet :: string
  table_keyword :: string
  title_col :: string
  ring_col :: string
  columns_mapping :: "string list"
  region_col :: "string option"
  ring_121_col :: "string option"
  has_topology_image :: bool

text \<open>
  What \<^verbatim>\<open>generate_documents\<close> takes from outside the program: the result of
  \<^verbatim>\<open>pd.read_excel\<close> for a path and a sheet (an error text when it raises), the result
  of \<^verbatim>\<open>Document(path)\<close> (\<open>None\<close> when it raises), \<^verbatim>\<open>os.path.exists\<close>, whether
  \<^verbatim>\<open>add_picture\<close> accepts an image file, the order in which \<^verbatim>\<open>value_counts()\<close> lists
  the distinct texts of a column with their counts, the three texts made from
  \<^verbatim>\<open>datetime.now()\<close>, and the configured output directory.
\<close>

record env =
  read_excel :: "string \<Rightarrow> string \<Rightarrow> string + dataframe"
  load_template :: "string \<Rightarrow> document option"
  path_exists :: "string \<Rightarrow> bool"
  add_picture_ok :: "string \<Rightarrow> bool"
  value_counts :: "cell list \<Rightarrow> (string \<times> nat) list"
  today_str :: string
  change_time :: string
  timestamp :: string
  OUTPUT_FOLDER :: string

text \<open>
  The files the program leaves behind: the directories it made, the documents it saved
  (a later save to the same path replaces the earlier one) and the archives it wrote,
  each with the files put into it.
\<close>

record filesystem =
  folders :: "string list"
  saved :: "string \<rightharpoonup> document"
  archives :: "string \<rightharpoonup> string list"

text \<open>The four early returns of \<^verbatim>\<open>generate_documents\<close>, whose first component is \<^verbatim>\<open>None\<close>.\<close>

datatype error =
    ScopeNotFound string
  | ExcelReadError string
  | MissingColumns "string list"
  | TemplateNotFound

text \<open>
  Lines 307 and 308: the title of a group, from the first row of the group.
  \<^verbatim>\<open>pd.notna\<close> is false for NaN only.
\<close>

definition iloc0 :: "(nat \<times> row) list \<Rightarrow> row" where
  "iloc0 group_data = (case group_data of [] \<Rightarrow> Map.empty | ir # irs \<Rightarrow> snd ir)"

definition doc_title_of :: "string \<Rightarrow> string \<Rightarrow> (nat \<times> row) list \<Rightarrow> string" where
  "doc_title_of title group_name group_data =
     (let raw_title = row_get (iloc0 group_data) title (Str (''Doc - '' @ group_name)) in
      case raw_title of Str s \<Rightarrow> s | NaN \<Rightarrow> ''Doc - '' @ group_name)"

text \<open>Lines 327 to 343: the text for the scope placeholder.\<close>

definition present :: "string \<Rightarrow> bool" where
  "present v = (lower v \<noteq> ''nan'' \<and> v \<noteq> [])"

definition change_scope_of ::
  "env \<Rightarrow> scope_cfg \<Rightarrow> string \<Rightarrow> string list \<Rightarrow> (nat \<times> row) list \<Rightarrow> string" where
  "change_scope_of e cfg scope_key cols group_data =
     (if scope_key \<in> set [''Change_SFP'', ''Upgrade_License''] \<and> ''NE Type*'' \<in> set cols
      then (let ne_type_counts =
                  value_counts e (map (\<lambda>ir. row_get (snd ir) ''NE Type*'' NaN) group_data);
                total_devices = sum_list (map snd ne_type_counts)
            in join [CHR 0x0A]
                 ((''Total '' @ str_nat total_devices @ '' Device:'')
                  # map (\<lambda>(ne_type, count). str_nat count @ '' * '' @ ne_type)
                      (filter (\<lambda>(ne_type, count). ne_type \<noteq> [] \<and> lower ne_type \<noteq> ''nan'')
                         ne_type_counts)))
      else (case region_col cfg of
              None \<Rightarrow> ''All region''
            | Some rc \<Rightarrow>
                if rc \<in> set cols
                then (let region_val = str_cell (row_get (iloc0 group_data) rc (Str [])) in
                      if present region_val then region_val @ '' region'' else ''All region'')
                else ''All region''))"

text \<open>Lines 347 to 355: the text for the placeholder \<^verbatim>\<open>{{CHANGE_RING_121}}\<close>.\<close>

definition ring_121_of :: "scope_cfg \<Rightarrow> string \<Rightarrow> string list \<Rightarrow> (nat \<times> row) list \<Rightarrow> string" where
  "ring_121_of cfg group_name cols group_data =
     (case ring_121_col cfg of
        None \<Rightarrow> group_name
      | Some rc \<Rightarrow>
          if rc \<in> set cols
          then (let ring_121_val = str_cell (row_get (iloc0 group_data) rc (Str [])) in
                if present ring_121_val then ring_121_val else group_name)
          else group_name)"

text \<open>Lines 357 to 394: the picture, or the text that stands in for it.\<close>

definition topology_step ::
  "env \<Rightarrow> scope_cfg \<Rightarrow> (string \<rightharpoonup> string) \<Rightarrow> string \<Rightarrow> document \<Rightarrow> document" where
  "topology_step e cfg topology_images group_name doc =
     (let ring_image_path = topology_images group_name;
          usable = (case ring_image_path of
                      None \<Rightarrow> False
                    | Some path \<Rightarrow> path \<noteq> [] \<and> has_topology_image cfg \<and> path_exists e path)
      in case (usable, ring_image_path) of
           (True, Some path) \<Rightarrow> insert_topology_image (add_picture_ok e path) path doc
         | _ \<Rightarrow>
           if has_topology_image cfg
           then snd (global_replace doc TOPOLOGY_IMAGE ''[Gambar topologi tidak tersedia]'')
           else doc)"

text \<open>\<^verbatim>\<open>sanitize_filename\<close>: the characters \<^verbatim>\<open>\ / * ? : " < > |\<close> are removed.\<close>

definition sanitize_filename :: "string \<Rightarrow> string" where
  "sanitize_filename filename =
     filter (\<lambda>c. c \<notin> set [CHR 0x5C, CHR ''/'', CHR ''*'', CHR ''?'', CHR '':'', CHR 0x22,
                            CHR ''<'', CHR ''>'', CHR ''|'']) filename"

text \<open>
  The body of the loop over the groups, from the fresh copy of the template to the
  document that is saved, with the title it is saved under.
\<close>

definition process_group ::
  "env \<Rightarrow> scope_cfg \<Rightarrow> string \<Rightarrow> (string \<rightharpoonup> string) \<Rightarrow> string list
   \<Rightarrow> string \<times> (nat \<times> row) list \<Rightarrow> document \<Rightarrow> string \<times> document" where
  "process_group e cfg scope_key topology_images cols g template =
     (let group_name = fst g;
          group_data = snd g;
          doc_title = doc_title_of (title_col cfg) group_name group_data;
          d1 = snd (global_replace template DOC_TITLE doc_title);
          d2 = snd (global_replace d1 ''{{DOC_DATE}}'' (today_str e));
          d3 = snd (global_replace d2 ''{{CHANGE_TIME}}'' (change_time e));
          d4 = snd (global_replace d3 ''{{CHANGE_SCOPE}}''
                      (change_scope_of e cfg scope_key cols group_data));
          d5 = snd (global_replace d4 ''{{CHANGE_RING_121}}''
                      (ring_121_of cfg group_name cols group_data));
          d6 = topology_step e cfg topology_images group_name d5;
          d7 = fill_target_table (table_keyword cfg) (columns_mapping cfg) group_data d6
      in (doc_title, d7))"

text \<open>
  The loop over the groups. A template that cannot be loaded ends the run with an error;
  the documents saved for earlier groups stay on disk.
\<close>

fun run_groups ::
  "env \<Rightarrow> scope_cfg \<Rightarrow> string \<Rightarrow> (string \<rightharpoonup> string) \<Rightarrow> string list \<Rightarrow> string
   \<Rightarrow> (string \<times> (nat \<times> row) list) list \<Rightarrow> string list \<Rightarrow> filesystem
   \<Rightarrow> (error + string list) \<times> filesystem" where
  "run_groups e cfg scope_key topology_images cols output_folder [] generated_files fs =
     (Inr generated_files, fs)"
| "run_groups e cfg scope_key topology_images cols output_folder (g # gs) generated_files fs =
     (case load_template e (template_file cfg) of
        None \<Rightarrow> (Inl TemplateNotFound, fs)
      | Some template \<Rightarrow>
          (let (doc_title, doc) = process_group e cfg scope_key topology_images cols g template;
               clean_name = sanitize_filename doc_title;
               output_path = output_folder @ ''/'' @ clean_name @ ''.docx''
           in run_groups e cfg scope_key topology_images cols output_folder gs
                (generated_files @ [output_path])
                (fs\<lparr>saved := (saved fs)(output_path \<mapsto> doc)\<rparr>)))"

text \<open>
  \<^verbatim>\<open>generate_documents(excel_path, scope_key, topology_images)\<close>. The result is the
  error of an early return, or the path of the archive with the number of documents;
  the second component is the disk after the run. The log and the recompression of large
  files, which changes no content, are left out.
\<close>

definition generate_documents ::
  "env \<Rightarrow> (string \<rightharpoonup> scope_cfg) \<Rightarrow> string \<Rightarrow> string \<Rightarrow> (string \<rightharpoonup> string) \<Rightarrow> filesystem
   \<Rightarrow> (error + string \<times> nat) \<times> filesystem" where
  "generate_documents e config excel_path scope_key topology_images fs =
     (case config scope_key of
        None \<Rightarrow> (Inl (ScopeNotFound scope_key), fs)
      | Some cfg \<Rightarrow>
          (let output_folder =
                 OUTPUT_FOLDER e @ ''/Hasil_'' @ scope_key @ ''_'' @ timestamp e;
               fs1 = fs\<lparr>folders := folders fs @ [output_folder]\<rparr>
           in case read_excel e excel_path (excel_sheet cfg) of
                Inl msg \<Rightarrow> (Inl (ExcelReadError msg), fs1)
              | Inr df \<Rightarrow>
                  (let req_cols = columns_mapping cfg @ [ring_col cfg, title_col cfg];
                       missing = filter (\<lambda>c. c \<notin> set (columns df)) req_cols
                   in if missing \<noteq> [] then (Inl (MissingColumns missing), fs1)
                      else
                        (let df1 = normalize_ring_col (ring_col cfg) df;
                             grouped = groupby (ring_col cfg) df1
                         in case run_groups e cfg scope_key topology_images (columns df1)
                                   output_folder grouped [] fs1 of
                              (Inl err, fs2) \<Rightarrow> (Inl err, fs2)
                            | (Inr generated_files, fs2) \<Rightarrow>
                                (let zip_path = OUTPUT_FOLDER e @ ''/Hasil_'' @ scope_key @ ''_''
                                                @ timestamp e @ ''.zip''
                                 in (Inr (zip_path, length generated_files),
                                     fs2\<lparr>archives := (archives fs2)(zip_path \<mapsto> generated_files)\<rparr>))))))"

section \<open>The auto-fill helpers of the spreadsheet editor\<close>

text \<open>
  The rows of the editor are lists of cell texts. \<^verbatim>\<open>api_excel_autofill_ring\<close> and
  \<^verbatim>\<open>api_excel_autofill_hostname\<close> build a dictionary from a report (a list of pairs
  of texts, here the two values read from each record) and then run the same loop over
  the rows, with the roles of the columns exchanged: a key column that is looked up
  and a target column that is filled.
\<close>

definition blank :: "string \<Rightarrow> bool" where
  "blank v = (v = [] \<or> lower v = ''nan'')"

text \<open>
  \<^verbatim>\<open>for record in report: k = str(...).strip(); v = str(...).strip();
  if k and k.lower() != 'nan': lookup[k.lower()] = v\<close>
\<close>

definition build_lookup :: "(string \<times> string) list \<Rightarrow> (string \<rightharpoonup> string)" where
  "build_lookup report =
     fold (\<lambda>(k, v) lookup.
             if \<not> blank (strip k) then lookup(lower (strip k) \<mapsto> strip v) else lookup)
          report Map.empty"

text \<open>\<^verbatim>\<open>str(row[i]).strip() if i < len(row) else ''\<close>\<close>

definition cell_at :: "string list \<Rightarrow> nat \<Rightarrow> string" where
  "cell_at r i = (if i < length r then strip (r ! i) else [])"

text \<open>\<^verbatim>\<open>while len(row) <= i: row.append(''); row[i] = v\<close>\<close>

definition put_cell :: "string list \<Rightarrow> nat \<Rightarrow> string \<Rightarrow> string list" where
  "put_cell r i v = (r @ replicate (Suc i - length r) [])[i := v]"

text \<open>
  The loop over the rows, with the counter of filled rows and the list of keys that
  were not found.
\<close>

fun autofill_rows ::
  "(string \<rightharpoonup> string) \<Rightarrow> nat \<Rightarrow> nat \<Rightarrow> string list list \<Rightarrow> nat \<Rightarrow> string list
   \<Rightarrow> string list list \<times> nat \<times> string list" where
  "autofill_rows lookup key_idx target_idx [] filled_count not_found =
     ([], filled_count, not_found)"
| "autofill_rows lookup key_idx target_idx (r # rs) filled_count not_found =
     (let key = cell_at r key_idx;
          current = cell_at r target_idx;
          found = (case lookup (lower key) of None \<Rightarrow> [] | Some v \<Rightarrow> v);
          (r', filled_count', not_found') =
            (if blank key then (r, filled_count, not_found)
             else if \<not> blank current then (r, filled_count, not_found)
             else if found \<noteq> [] then (put_cell r target_idx found, filled_count + 1, not_found)
             else (r, filled_count, if key \<in> set not_found then not_found else not_found @ [key]));
          (rs', n, nf) = autofill_rows lookup key_idx target_idx rs filled_count' not_found'
      in (r' # rs', n, nf))"

datatype api_error = InvalidColumnIndices

definition api_excel_autofill_ring ::
  "string list list \<Rightarrow> (string \<times> string) list \<Rightarrow> int \<Rightarrow> int
   \<Rightarrow> api_error + string list list \<times> nat \<times> string list" where
  "api_excel_autofill_ring rws ne_report hostname_col_index ring_col_index =
     (if hostname_col_index < 0 \<or> ring_col_index < 0 then Inl InvalidColumnIndices
      else (let (rws', filled_count, not_found) =
                  autofill_rows (build_lookup ne_report) (nat hostname_col_index)
                    (nat ring_col_index) rws 0 []
            in Inr (rws', filled_count, take 20 not_found)))"

definition api_excel_autofill_hostname ::
  "string list list \<Rightarrow> (string \<times> string) list \<Rightarrow> int \<Rightarrow> int
   \<Rightarrow> api_error + string list list \<times> nat \<times> string list" where
  "api_excel_autofill_hostname rws hostname_report site_id_col_index hostname_col_index =
     (if site_id_col_index < 0 \<or> hostname_col_index < 0 then Inl InvalidColumnIndices
      else (let (rws', filled_count, not_found) =
                  autofill_rows (build_lookup hostname_report) (nat site_id_col_index)
                    (nat hostname_col_index) rws 0 []
            in Inr (rws', filled_count, take 20 not_found)))"

section \<open>The nearest C/AG node of a topology chain\<close>

text \<open>
  \<^verbatim>\<open>find_nearest_cag(pag_hostname, topo_data)\<close>. A chain is a text of host names
  separated by commas; its names are stripped and the empty ones dropped.
\<close>

definition hostnames_of :: "string \<Rightarrow> string list" where
  "hostnames_of chain = filter (\<lambda>h. h \<noteq> []) (map strip (split_on CHR '','' chain))"

definition is_cag :: "string \<Rightarrow> bool" where
  "is_cag hostname = (prefix ''AG-'' hostname \<or> prefix ''C-'' hostname)"

text \<open>The first position of the queried name: the loop with \<^verbatim>\<open>enumerate\<close> and \<^verbatim>\<open>break\<close>.\<close>

fun find_pos :: "string \<Rightarrow> string list \<Rightarrow> nat option" where
  "find_pos pag_hostname [] = None"
| "find_pos pag_hostname (h # hs) =
     (if h = pag_hostname then Some 0 else map_option Suc (find_pos pag_hostname hs))"

text \<open>
  \<^verbatim>\<open>for i in range(pag_pos - 1, -1, -1)\<close>: \<open>search_left hs n\<close> visits the positions
  \<open>n - 1\<close> down to 0 and returns the first one that holds a C/AG name.
\<close>

fun search_left :: "string list \<Rightarrow> nat \<Rightarrow> nat option" where
  "search_left hs 0 = None"
| "search_left hs (Suc i) = (if is_cag (hs ! i) then Some i else search_left hs i)"

text \<open>\<^verbatim>\<open>for i in range(pag_pos + 1, len(hostnames))\<close>\<close>

function search_right :: "string list \<Rightarrow> nat \<Rightarrow> nat option" where
  "search_right hs i =
     (if i < length hs then (if is_cag (hs ! i) then Some i else search_right hs (Suc i))
      else None)"
  by pat_completeness auto
termination
  by (relation "measure (\<lambda>(hs, i). length hs - i)") auto

declare search_right.simps [simp del]

text \<open>
  The choice within one chain in which the name was found at \<open>pag_pos\<close>; \<open>None\<close>
  when the chain has no C/AG name on either side, in which case the program goes on
  with the next chain.
\<close>

definition nearest_in_chain :: "string list \<Rightarrow> nat \<Rightarrow> string option" where
  "nearest_in_chain hs pag_pos =
     (case (search_left hs pag_pos, search_right hs (Suc pag_pos)) of
        (Some l, Some r) \<Rightarrow>
          (let left_distance = pag_pos - l; right_distance = r - pag_pos
           in Some (if left_distance \<le> right_distance then hs ! l else hs ! r))
      | (Some l, None) \<Rightarrow> Some (hs ! l)
      | (None, Some r) \<Rightarrow> Some (hs ! r)
      | (None, None) \<Rightarrow> None)"

fun find_nearest_cag :: "string \<Rightarrow> string list \<Rightarrow> string option" where
  "find_nearest_cag pag_hostname [] = None"
| "find_nearest_cag pag_hostname (chain # topo_data) =
     (if chain = [] then find_nearest_cag pag_hostname topo_data
      else (case find_pos pag_hostname (hostnames_of chain) of
              None \<Rightarrow> find_nearest_cag pag_hostname topo_data
            | Some pag_pos \<Rightarrow>
                (case nearest_in_chain (hostnames_of chain) pag_pos of
                   Some h \<Rightarrow> Some h
                 | None \<Rightarrow> find_nearest_cag pag_hostname topo_data)))"

section \<open>Example inputs\<close>

text \<open>
  A sheet of four rows: two spellings of one ring, a row without a ring, and a second ring.
\<close>

definition example_df :: dataframe where
  "example_df =
     \<lparr>columns = [''Ring'', ''Title''],
      rows = [[''Ring'' \<mapsto> Str ''Ring A'', ''Title'' \<mapsto> Str ''T1''],
              [''Ring'' \<mapsto> Str ''  Ring   A '', ''Title'' \<mapsto> NaN],
              [''Ring'' \<mapsto> NaN, ''Title'' \<mapsto> Str ''T3''],
              [''Ring'' \<mapsto> Str ''Ring B'', ''Title'' \<mapsto> Str ''T4'']]\<rparr>"

text \<open>Documents and paragraphs that hold the title placeholder in different ways.\<close>

definition split_header_doc :: document where
  "split_header_doc =
     \<lparr>paragraphs = [], tables = [], floating = [],
      sections = [\<lparr>header = [[TextRun ''{{DOC_'', TextRun ''TITLE}}'']],
                   first_page_header = [], even_page_header = [],
                   footer = [], first_page_footer = [], even_page_footer = []\<rparr>]\<rparr>"

definition mixed_paragraph :: docx_paragraph where
  "mixed_paragraph = [TextRun ''{{DOC_TITLE}}'', TextRun ''{{DO'', TextRun ''C_TIT'', TextRun ''LE}}'']"

definition split_paragraph :: docx_paragraph where
  "split_paragraph = [TextRun ''Title: {{DO'', TextRun ''C_TIT'', TextRun ''LE}} (draft)'']"

definition title_doc :: document where
  "title_doc =
     \<lparr>paragraphs = [split_paragraph, [TextRun ''plain'']],
      tables = [\<lparr>style = ''Normal'', autofit = False, grid_cols = 1,
                 trows = [[[[TextRun ''{{DOC_TITLE}} / {{DOC_TITLE}}'']]]]\<rparr>],
      floating = [[TextRun ''box {{DOC_TITLE}}'']],
      sections = [\<lparr>header = [[TextRun ''{{DOC_TITLE}}'']],
                   first_page_header = [], even_page_header = [],
                   footer = [[TextRun ''page'']], first_page_footer = [], even_page_footer = []\<rparr>]\<rparr>"

text \<open>
  A scope, a template with one data table, a group of three rows, a document with the
  image placeholder in two cells of one row, and the surroundings of a run.
\<close>

definition example_cfg :: scope_cfg where
  "example_cfg =
     \<lparr>template_file = ''template.docx'', excel_sheet = ''Sheet1'', table_keyword = ''Tower ID'',
      title_col = ''Title'', ring_col = ''Ring'', columns_mapping = [''Tower ID'', ''Hostname''],
      region_col = None, ring_121_col = None, has_topology_image = True\<rparr>"

definition example_table :: table where
  "example_table =
     \<lparr>style = ''Normal'', autofit = False, grid_cols = 3,
      trows = [[[[TextRun ''No'']], [[TextRun ''Tower ID'']], [[TextRun ''Hostname'']]],
               [[[]], [[]], [[]]],
               [[[]], [[]], [[]]]]\<rparr>"

definition example_doc :: document where
  "example_doc =
     \<lparr>paragraphs = [[TextRun ''{{DOC_TITLE}}'']], tables = [example_table],
      floating = [], sections = []\<rparr>"

definition example_group :: "(nat \<times> row) list" where
  "example_group =
     [(0, [''Tower ID'' \<mapsto> Str ''T1'', ''Hostname'' \<mapsto> Str ''H1'']),
      (3, [''Tower ID'' \<mapsto> Str ''T2'', ''Hostname'' \<mapsto> NaN]),
      (4, [''Tower ID'' \<mapsto> Str ''T3'', ''Hostname'' \<mapsto> Str ''NaN''])]"

definition two_cell_doc :: document where
  "two_cell_doc =
     \<lparr>paragraphs = [[TextRun ''Topology'']],
      tables = [\<lparr>style = ''Normal'', autofit = False, grid_cols = 2,
                 trows = [[[[TextRun ''{{TOPOLOGY_IMAGE}}'']], [[TextRun ''{{TOPOLOGY_IMAGE}}'']]]]\<rparr>],
      floating = [], sections = []\<rparr>"

definition example_env :: env where
  "example_env =
     \<lparr>read_excel = (\<lambda>path sheet. Inr example_df),
      load_template = (\<lambda>path. Some example_doc),
      path_exists = (\<lambda>path. True),
      add_picture_ok = (\<lambda>path. True),
      value_counts = (\<lambda>cells. []),
      today_str = ''05-Nov'',
      change_time = ''23:00 05 Nov 2026 - 05:00 05 Dec 2026'',
      timestamp = ''2026-11-05_120000'',
      OUTPUT_FOLDER = ''output''\<rparr>"

definition empty_fs :: filesystem where
  "empty_fs = \<lparr>folders = [], saved = Map.empty, archives = Map.empty\<rparr>"

definition blank_ring_df :: dataframe where
  "blank_ring_df = \<lparr>columns = [''Ring''], rows = [[''Ring'' \<mapsto> NaN]]\<rparr>"

definition full_df :: dataframe where
  "full_df =
     \<lparr>columns = [''Ring'', ''Title'', ''Tower ID'', ''Hostname''],
      rows = [[''Ring'' \<mapsto> Str ''Ring A'', ''Title'' \<mapsto> Str ''Swap: A?'',
               ''Tower ID'' \<mapsto> Str ''T1'', ''Hostname'' \<mapsto> Str ''H1''],
              [''Ring'' \<mapsto> Str ''Ring A '', ''Title'' \<mapsto> NaN,
               ''Tower ID'' \<mapsto> Str ''T2'', ''Hostname'' \<mapsto> NaN],
              [''Ring'' \<mapsto> Str ''Ring B'', ''Title'' \<mapsto> NaN,
               ''Tower ID'' \<mapsto> Str ''T3'', ''Hostname'' \<mapsto> Str ''H3'']]\<rparr>"

text \<open>Topology chains, and rows of the editor with a report to fill them from.\<close>

definition example_topo :: "string list" where
  "example_topo = [''PAG-9,X-1'', ''C-1, PAG-2 ,AG-3,,X-4'', ''AG-7,PAG-2'']"

definition example_rows :: "string list list" where
  "example_rows = [[''h1'', ''''], [''h2'', ''Ring X''], [''H1 '', ''NaN''], [''h3'']]"

definition example_report :: "(string \<times> string) list" where
  "example_report = [(''H1'', ''Ring A''), (''h2'', '' Ring B'')]"

section \<open>Facts about the string primitives\<close>

lemma isspace_space: "isspace CHR '' ''"
  by (simp add: isspace_def)

lemma dropWhile_all_append: "list_all P xs \<Longrightarrow> dropWhile P (xs @ ys) = dropWhile P ys"
  by (induction xs) auto

lemma dropWhile_all_Nil: "list_all P xs \<Longrightarrow> dropWhile P xs = []"
  by (induction xs) auto

lemma dropWhile_some_append:
  "\<not> list_all P xs \<Longrightarrow> dropWhile P (xs @ ys) = dropWhile P xs @ ys"
  by (induction xs) auto

lemma list_all_dropWhile: "list_all P (dropWhile P xs) \<longleftrightarrow> list_all P xs"
  by (induction xs) auto

lemma dropWhile_dropWhile_hd:
  "dropWhile P xs = y # ys \<Longrightarrow> \<not> P y"
  by (induction xs) (auto split: if_splits)

lemma rstrip_all_ws: "list_all isspace post \<Longrightarrow> rstrip (s @ post) = rstrip s"
  by (simp add: rstrip_def dropWhile_all_append)

lemma rstrip_Nil: "rstrip [] = []" by (simp add: rstrip_def)

lemma rstrip_Cons:
  "rstrip (c # cs) = (if list_all isspace (c # cs) then [] else c # rstrip cs)"
proof (cases "list_all isspace cs")
  case True
  then have "dropWhile isspace (rev cs @ [c]) = dropWhile isspace [c]"
    by (intro dropWhile_all_append) simp
  with True show ?thesis
    by (simp add: rstrip_def dropWhile_all_Nil)
next
  case False
  then have "dropWhile isspace (rev cs @ [c]) = dropWhile isspace (rev cs) @ [c]"
    by (intro dropWhile_some_append) simp
  with False show ?thesis
    by (simp add: rstrip_def)
qed

lemma dropWhile_collapse_ws:
  "dropWhile isspace (collapse_ws (dropWhile isspace s)) = collapse_ws (dropWhile isspace s)"
proof (cases "dropWhile isspace s")
  case Nil
  then show ?thesis by (simp del: dropWhile_eq_Nil_conv)
next
  case (Cons x xs)
  then have "\<not> isspace x"
    by (rule dropWhile_dropWhile_hd)
  with Cons show ?thesis by simp
qed

lemma collapse_lstrip: "collapse_ws (lstrip s) = lstrip (collapse_ws s)"
proof (cases s)
  case Nil
  then show ?thesis by (simp add: lstrip_def)
next
  case (Cons c cs)
  then show ?thesis
    by (simp add: lstrip_def dropWhile_collapse_ws isspace_space)
qed

lemma collapse_idem: "collapse_ws (collapse_ws s) = collapse_ws s"
  by (induction s rule: collapse_ws.induct) (simp_all add: isspace_space dropWhile_collapse_ws)

lemma list_all_collapse_ws: "list_all isspace (collapse_ws s) \<longleftrightarrow> list_all isspace s"
  by (induction s rule: collapse_ws.induct) (simp_all add: isspace_space list_all_dropWhile)

lemma dropWhile_rstrip: "dropWhile isspace (rstrip s) = rstrip (dropWhile isspace s)"
proof (induction s)
  case Nil
  then show ?case by (simp add: rstrip_Nil)
next
  case (Cons c cs)
  show ?case
  proof (cases "isspace c")
    case False
    then show ?thesis by (simp add: rstrip_Cons)
  next
    case True
    show ?thesis
    proof (cases "list_all isspace cs")
      case all: True
      then have "dropWhile isspace cs = []" by (rule dropWhile_all_Nil)
      with True all show ?thesis
        by (simp add: rstrip_Cons rstrip_Nil del: dropWhile_eq_Nil_conv)
    next
      case False
      with True Cons show ?thesis by (simp add: rstrip_Cons)
    qed
  qed
qed

lemma collapse_rstrip: "collapse_ws (rstrip s) = rstrip (collapse_ws s)"
proof (induction s rule: collapse_ws.induct)
  case 1
  then show ?case by (simp add: rstrip_Nil)
next
  case (2 c cs)
  show ?case
  proof (cases "isspace c")
    case False
    with 2 show ?thesis by (simp add: rstrip_Cons)
  next
    case True
    show ?thesis
    proof (cases "list_all isspace cs")
      case all: True
      then have "dropWhile isspace cs = []" by (rule dropWhile_all_Nil)
      with True all show ?thesis
        by (simp add: rstrip_Cons rstrip_Nil isspace_space del: dropWhile_eq_Nil_conv)
    next
      case False
      then have "\<not> list_all isspace (collapse_ws (dropWhile isspace cs))"
        by (simp add: list_all_collapse_ws list_all_dropWhile)
      with True False 2 show ?thesis
        by (simp add: rstrip_Cons dropWhile_rstrip)
    qed
  qed
qed

lemma collapse_strip: "collapse_ws (strip s) = strip (collapse_ws s)"
  by (simp add: strip_def collapse_rstrip collapse_lstrip)

lemma lstrip_idem: "lstrip (lstrip s) = lstrip s"
  by (simp add: lstrip_def)

lemma list_all_rstrip: "list_all isspace (rstrip s) \<longleftrightarrow> list_all isspace s"
  by (induction s) (auto simp: rstrip_Cons rstrip_Nil)

lemma rstrip_idem: "rstrip (rstrip s) = rstrip s"
  by (induction s) (auto simp: rstrip_Cons rstrip_Nil list_all_rstrip)

lemma lstrip_rstrip: "lstrip (rstrip s) = rstrip (lstrip s)"
  by (simp add: lstrip_def dropWhile_rstrip)

lemma strip_idem: "strip (strip s) = strip s"
  by (simp add: strip_def lstrip_rstrip lstrip_idem rstrip_idem)

lemma normalize_ring_idem: "normalize_ring (normalize_ring s) = normalize_ring s"
  by (simp add: normalize_ring_def collapse_strip strip_idem collapse_idem)

lemma lstrip_all_ws': "list_all isspace pre \<Longrightarrow> lstrip (pre @ s) = lstrip s"
  by (simp add: lstrip_def dropWhile_all_append)

lemma strip_surrounding:
  "list_all isspace pre \<Longrightarrow> list_all isspace post \<Longrightarrow> strip (pre @ s @ post) = strip s"
proof -
  assume pre: "list_all isspace pre" and post: "list_all isspace post"
  have "strip (pre @ s @ post) = lstrip (rstrip ((pre @ s) @ post))"
    by (simp add: strip_def lstrip_rstrip)
  also have "\<dots> = lstrip (rstrip (pre @ s))"
    using post by (simp only: rstrip_all_ws)
  also have "\<dots> = rstrip (lstrip (pre @ s))"
    by (simp add: lstrip_rstrip)
  also have "\<dots> = strip s"
    using pre by (simp add: strip_def lstrip_all_ws')
  finally show ?thesis .
qed

lemma collapse_ws_run:
  "w1 \<noteq> [] \<Longrightarrow> list_all isspace w1 \<Longrightarrow> w2 \<noteq> [] \<Longrightarrow> list_all isspace w2 \<Longrightarrow>
   collapse_ws (u @ w1 @ v) = collapse_ws (u @ w2 @ v)"
proof (induction u rule: collapse_ws.induct)
  case 1
  then show ?case
    by (cases w1; cases w2) (simp_all add: dropWhile_all_append)
next
  case (2 c cs)
  show ?case
  proof (cases "isspace c")
    case False
    with 2 show ?thesis by simp
  next
    case True
    show ?thesis
    proof (cases "list_all isspace cs")
      case all: True
      with True 2 show ?thesis by (simp add: dropWhile_all_append)
    next
      case False
      with True 2 show ?thesis by (simp add: dropWhile_some_append)
    qed
  qed
qed

lemma normalize_ring_run:
  "w1 \<noteq> [] \<Longrightarrow> list_all isspace w1 \<Longrightarrow> w2 \<noteq> [] \<Longrightarrow> list_all isspace w2 \<Longrightarrow>
   normalize_ring (u @ w1 @ v) = normalize_ring (u @ w2 @ v)"
  using collapse_ws_run [of w1 w2 u v] by (simp add: normalize_ring_def collapse_strip)

lemma str_in_iff_sublist: "str_in p s \<longleftrightarrow> sublist p s"
  by (induction s) (auto simp: sublist_Cons_right)

lemma str_in_Nil: "str_in [] s"
  by (induction s) auto

lemma str_in_append_right: "str_in p s \<Longrightarrow> str_in p (s @ t)"
  by (simp add: str_in_iff_sublist sublist_append)

lemma str_in_append_left: "str_in p t \<Longrightarrow> str_in p (s @ t)"
  by (simp add: str_in_iff_sublist sublist_append)

lemma str_in_concat: "s \<in> set ss \<Longrightarrow> str_in p s \<Longrightarrow> str_in p (concat ss)"
  by (induction ss) (auto intro: str_in_append_right str_in_append_left)

lemma str_in_single: "str_in [x] s \<longleftrightarrow> x \<in> set s"
  by (induction s) auto

text \<open>A text without characters of the replacement that starts the result starts the input.\<close>

lemma prefix_replace_str:
  "old \<noteq> [] \<Longrightarrow> new \<noteq> [] \<Longrightarrow> set q \<inter> set new = {} \<Longrightarrow>
   prefix q (replace_str old new s) \<Longrightarrow> prefix q s"
proof (induction old new s arbitrary: q rule: replace_str.induct)
  case (1 old new)
  then show ?case by simp
next
  case (2 old new c cs)
  show ?case
  proof (cases "prefix old (c # cs)")
    case True
    with "2.prems" have pre: "prefix q (new @ replace_str old new (drop (length old) (c # cs)))"
      by simp
    show ?thesis
    proof (cases q)
      case Nil
      then show ?thesis by simp
    next
      case (Cons a q')
      from "2.prems"(2) obtain b new' where new: "new = b # new'" by (cases new) auto
      with pre Cons have "a = b" by simp
      with Cons new "2.prems"(3) show ?thesis by auto
    qed
  next
    case False
    with "2.prems" have pre: "prefix q (c # replace_str old new cs)" by simp
    show ?thesis
    proof (cases q)
      case Nil
      then show ?thesis by simp
    next
      case (Cons a q')
      with pre have a: "a = c" and q': "prefix q' (replace_str old new cs)" by simp_all
      from "2.prems"(3) Cons have "set q' \<inter> set new = {}" by auto
      with "2.IH"(3) [OF "2.prems"(1) False "2.prems"(1,2) _ q'] have "prefix q' cs" by simp
      with a Cons show ?thesis by simp
    qed
  qed
qed

lemma not_prefix_replace_str:
  assumes "old \<noteq> []" "new \<noteq> []" "set old \<inter> set new = {}"
  shows "\<not> prefix old (replace_str old new s)"
proof
  assume pre: "prefix old (replace_str old new s)"
  with assms have ps: "prefix old s" by (simp add: prefix_replace_str [of old new old s])
  then obtain c cs where s: "s = c # cs" using assms(1) by (cases s) auto
  from assms(2) obtain b new' where new: "new = b # new'" by (cases new) auto
  from assms(1) obtain a old' where old: "old = a # old'" by (cases old) auto
  from pre ps s assms(1) have "prefix old (new @ replace_str old new (drop (length old) s))"
    by simp
  with new old have "a = b" by simp
  with new old assms(3) show False by auto
qed

lemma not_str_in_append_disjoint:
  "old \<noteq> [] \<Longrightarrow> set old \<inter> set new = {} \<Longrightarrow> \<not> str_in old t \<Longrightarrow> \<not> str_in old (new @ t)"
proof (induction new)
  case Nil
  then show ?case by simp
next
  case (Cons b new)
  from Cons.prems(1) obtain a old' where old: "old = a # old'" by (cases old) auto
  with Cons.prems(2) have "a \<noteq> b" by auto
  with old have "\<not> prefix old (b # new @ t)" by simp
  moreover from Cons have "\<not> str_in old (new @ t)" by auto
  ultimately show ?case by simp
qed

text \<open>
  After \<^verbatim>\<open>s.replace(old, new)\<close> the text holds no \<open>old\<close>, provided \<open>new\<close> is not
  empty and shares no character with \<open>old\<close>.
\<close>

lemma not_str_in_replace_str:
  assumes "old \<noteq> []" "new \<noteq> []" "set old \<inter> set new = {}"
  shows "\<not> str_in old (replace_str old new s)"
  using assms
proof (induction old new s rule: replace_str.induct)
  case (1 old new)
  then show ?case by simp
next
  case (2 old new c cs)
  show ?case
  proof (cases "prefix old (c # cs)")
    case True
    with "2.IH"(2) "2.prems"
    have "\<not> str_in old (replace_str old new (drop (length old) (c # cs)))" by simp
    with "2.prems" have "\<not> str_in old (new @ replace_str old new (drop (length old) (c # cs)))"
      by (simp add: not_str_in_append_disjoint)
    with True "2.prems"(1) show ?thesis by simp
  next
    case False
    with "2.IH"(3) "2.prems" have ih: "\<not> str_in old (replace_str old new cs)" by simp
    have "\<not> prefix old (c # replace_str old new cs)"
    proof
      assume pre: "prefix old (c # replace_str old new cs)"
      from "2.prems"(1) obtain a old' where old: "old = a # old'" by (cases old) auto
      from pre old have a: "a = c" by simp
      from pre have "prefix (a # old') (c # replace_str old new cs)"
        by (simp only: old [symmetric])
      then have p': "prefix old' (replace_str old new cs)" by simp
      from old "2.prems"(3) have "set old' \<inter> set new = {}" by auto
      from "2.prems"(1,2) this p' have "prefix old' cs"
        by (rule prefix_replace_str)
      with a old False show False by simp
    qed
    with ih False "2.prems"(1) show ?thesis by simp
  qed
qed

lemma replace_str_no_hit: "old \<noteq> [] \<Longrightarrow> \<not> str_in old s \<Longrightarrow> replace_str old new s = s"
proof (induction old new s rule: replace_str.induct)
  case (1 old new)
  then show ?case by simp
next
  case (2 old new c cs)
  from "2.prems" have np: "\<not> prefix old (c # cs)" and nin: "\<not> str_in old cs" by simp_all
  from "2.IH"(3) [OF "2.prems"(1) np "2.prems"(1) nin] "2.prems"(1) np show ?case by simp
qed

lemma set_replace_str_new:
  "old \<noteq> [] \<Longrightarrow> str_in old s \<Longrightarrow> set new \<subseteq> set (replace_str old new s)"
proof (induction old new s rule: replace_str.induct)
  case (1 old new)
  then show ?case by simp
next
  case (2 old new c cs)
  show ?case
  proof (cases "prefix old (c # cs)")
    case True
    with "2.prems"(1) show ?thesis by simp
  next
    case False
    with "2.prems" have "str_in old cs" by simp
    with "2.IH"(3) [OF "2.prems"(1) False "2.prems"(1)] False "2.prems"(1) show ?thesis
      by auto
  qed
qed

lemma set_replace_str_keeps:
  "x \<notin> set old \<Longrightarrow> x \<in> set s \<Longrightarrow> x \<in> set (replace_str old new s)"
proof (induction old new s rule: replace_str.induct)
  case (1 old new)
  then show ?case by simp
next
  case (2 old new c cs)
  show ?case
  proof (cases "old = []")
    case True
    with 2 show ?thesis by auto
  next
    case False
    show ?thesis
    proof (cases "prefix old (c # cs)")
      case True
      then obtain t where t: "c # cs = old @ t" by (auto simp: prefix_def)
      then have "drop (length old) (c # cs) = t" by simp
      moreover from t "2.prems" have "x \<in> set t"
        by (metis Un_iff set_append)
      ultimately have "x \<in> set (replace_str old new (drop (length old) (c # cs)))"
        using "2.IH"(2) [OF False True "2.prems"(1)] by simp
      with True False show ?thesis by simp
    next
      case np: False
      with 2 False show ?thesis by auto
    qed
  qed
qed

section \<open>Facts about the grouping\<close>

lemma concat_map_Nil: "concat (map (\<lambda>k. []) ks) = []"
  by (induction ks) auto

lemma mset_concat_single:
  "distinct ks \<Longrightarrow> k \<in> set ks \<Longrightarrow>
   mset (concat (map (\<lambda>k'. if k = k' then [x] else []) ks)) = {#x#}"
proof (induction ks)
  case Nil
  then show ?case by simp
next
  case (Cons a ks)
  show ?case
  proof (cases "k = a")
    case True
    with Cons.prems have "k \<notin> set ks" by simp
    then have "map (\<lambda>k'. if k = k' then [x] else []) ks = map (\<lambda>k'. []) ks"
      by (intro map_cong) auto
    with True show ?thesis by (simp add: concat_map_Nil)
  next
    case False
    with Cons show ?thesis by simp
  qed
qed

lemma mset_concat_filter_keys:
  "distinct ks \<Longrightarrow> f ` set xs \<subseteq> set ks \<Longrightarrow>
   mset (concat (map (\<lambda>k. filter (\<lambda>x. f x = k) xs) ks)) = mset xs"
proof (induction xs)
  case Nil
  then show ?case by (simp add: concat_map_Nil)
next
  case (Cons x xs)
  have split: "mset (concat (map (\<lambda>k. filter (\<lambda>y. f y = k) (x # xs)) ks))
      = mset (concat (map (\<lambda>k. if f x = k then [x] else []) ks))
        + mset (concat (map (\<lambda>k. filter (\<lambda>y. f y = k) xs) ks))"
    by (induction ks) auto
  from Cons.prems have "f x \<in> set ks" by simp
  with Cons.prems(1) have "mset (concat (map (\<lambda>k. if f x = k then [x] else []) ks)) = {#x#}"
    by (rule mset_concat_single)
  with split Cons show ?case by simp
qed

lemma group_key_normalized:
  "r \<in> set (rows (normalize_ring_col col df)) \<Longrightarrow> \<exists>k. group_key col r = Some k"
  by (auto simp: normalize_ring_col_def group_key_def)

lemma rows_normalize_ring_col:
  "rows (normalize_ring_col col df) =
     map (\<lambda>r. r(col \<mapsto> Str (normalize_ring (fillna_str (r col))))) (rows df)"
  by (simp add: normalize_ring_col_def)

lemma distinct_group_keys: "distinct (group_keys col df)"
  by (simp add: group_keys_def)

lemma set_group_keys:
  "set (group_keys col df) = {k. \<exists>r \<in> set (rows df). group_key col r = Some k}"
  by (force simp: group_keys_def List.map_filter_def)

lemma groupby_keys: "map fst (groupby col df) = group_keys col df"
  by (simp add: groupby_def comp_def)

lemma groupby_mset:
  assumes "\<forall>r \<in> set (rows df). \<exists>k. group_key col r = Some k"
  shows "mset (concat (map snd (groupby col df))) = mset (enumerate 0 (rows df))"
proof -
  let ?f = "\<lambda>ir. the (group_key col (snd ir))"
  let ?xs = "enumerate 0 (rows df)"
  have eq: "filter (\<lambda>ir. group_key col (snd ir) = Some k) ?xs = filter (\<lambda>ir. ?f ir = k) ?xs" for k
    using assms by (intro filter_cong) (auto simp: in_set_enumerate_eq)
  have "?f ` set ?xs \<subseteq> set (group_keys col df)"
    using assms by (auto simp: set_group_keys in_set_enumerate_eq)
  with distinct_group_keys
  have "mset (concat (map (\<lambda>k. filter (\<lambda>ir. ?f ir = k) ?xs) (group_keys col df))) = mset ?xs"
    by (rule mset_concat_filter_keys)
  then show ?thesis
    by (simp add: groupby_def comp_def eq)
qed

lemma groupby_nonempty_groups:
  "list_all (\<lambda>(k, g). g \<noteq> [] \<and> list_all (\<lambda>ir. group_key col (snd ir) = Some k) g) (groupby col df)"
proof -
  have "filter (\<lambda>ir. group_key col (snd ir) = Some k) (enumerate 0 (rows df)) \<noteq> []"
    if "k \<in> set (group_keys col df)" for k
  proof -
    from that obtain r where "r \<in> set (rows df)" "group_key col r = Some k"
      by (auto simp: set_group_keys)
    then obtain i where "i < length (rows df)" "rows df ! i = r"
      by (auto simp: in_set_conv_nth)
    with \<open>group_key col r = Some k\<close>
    have "(i, r) \<in> set (filter (\<lambda>ir. group_key col (snd ir) = Some k) (enumerate 0 (rows df)))"
      by (simp add: in_set_enumerate_eq)
    then show ?thesis by (metis empty_iff empty_set)
  qed
  then show ?thesis
    by (simp add: groupby_def list_all_iff)
qed

lemma filter_eq_singleton:
  "distinct ks \<Longrightarrow> k \<in> set ks \<Longrightarrow> filter (\<lambda>k'. k' = k) ks = [k]"
  by (induction ks) (auto simp: filter_empty_conv)

lemma groupby_exactly_one:
  assumes i: "i < length (rows df)" and k: "group_key col (rows df ! i) = Some k"
  shows "filter (\<lambda>(k', g). i \<in> fst ` set g) (groupby col df)
         = [(k, filter (\<lambda>ir. group_key col (snd ir) = Some k) (enumerate 0 (rows df)))]"
proof -
  let ?G = "\<lambda>k'. filter (\<lambda>ir. group_key col (snd ir) = Some k') (enumerate 0 (rows df))"
  have mem: "i \<in> fst ` set (?G k') \<longleftrightarrow> k' = k" for k'
    using i k by (auto simp: in_set_enumerate_eq image_iff)
  have "filter (\<lambda>(k', g). i \<in> fst ` set g) (groupby col df)
        = map (\<lambda>k'. (k', ?G k')) (filter (\<lambda>k'. i \<in> fst ` set (?G k')) (group_keys col df))"
    by (simp add: groupby_def filter_map comp_def del: set_filter)
  also have "\<dots> = map (\<lambda>k'. (k', ?G k')) (filter (\<lambda>k'. k' = k) (group_keys col df))"
    by (simp only: mem)
  finally have eq: "filter (\<lambda>(k', g). i \<in> fst ` set g) (groupby col df)
        = map (\<lambda>k'. (k', ?G k')) (filter (\<lambda>k'. k' = k) (group_keys col df))" .
  have "k \<in> set (group_keys col df)"
    using i k by (auto simp: set_group_keys)
  then have "filter (\<lambda>k'. k' = k) (group_keys col df) = [k]"
    using distinct_group_keys [of col df] by (intro filter_eq_singleton)
  with eq show ?thesis by simp
qed

lemma normalize_ring_col_nth:
  "i < length (rows df) \<Longrightarrow>
   rows (normalize_ring_col col df) ! i
     = (rows df ! i)(col \<mapsto> Str (normalize_ring (fillna_str ((rows df ! i) col))))"
  by (simp add: normalize_ring_col_def)

lemma group_key_normalize_ring_col:
  "i < length (rows df) \<Longrightarrow>
   group_key col (rows (normalize_ring_col col df) ! i)
     = Some (normalize_ring (fillna_str ((rows df ! i) col)))"
  by (simp add: normalize_ring_col_def group_key_def)

section \<open>Facts about the substitution\<close>

lemma table_paragraphs_map_table: "table_paragraphs (map_table f t) = map f (table_paragraphs t)"
  by (simp add: table_paragraphs_def map_table_def map_concat)

lemma concat_table_paragraphs_map_table:
  "concat (map table_paragraphs (map (map_table f) ts)) = map f (concat (map table_paragraphs ts))"
  by (induction ts) (simp_all add: table_paragraphs_map_table)

lemma section_paragraphs_xpath_section:
  "section_paragraphs (snd (xpath_section p r sec)) = map (map (xpath_run p r)) (section_paragraphs sec)"
  by (simp add: xpath_section_def xpath_replace_def section_paragraphs_def)

lemma concat_section_paragraphs_xpath_section:
  "concat (map section_paragraphs (map (snd \<circ> xpath_section p r) secs))
     = map (map (xpath_run p r)) (concat (map section_paragraphs secs))"
  by (induction secs) (simp_all add: section_paragraphs_xpath_section)

text \<open>The document between the paragraph passes and the raw-tree passes.\<close>

lemma all_paragraphs_global_replace:
  "all_paragraphs (snd (global_replace doc p r))
     = map (map (xpath_run p r))
         (map (snd \<circ> replace_step p r) (paragraphs doc)
          @ map (snd \<circ> replace_step p r) (concat (map table_paragraphs (tables doc)))
          @ floating doc
          @ concat (map section_paragraphs (sections doc)))"
  by (simp add: global_replace_def all_paragraphs_def Let_def map_concat comp_def
      table_paragraphs_map_table section_paragraphs_xpath_section)

lemma text_nodes_append: "text_nodes (ps @ qs) = text_nodes ps @ text_nodes qs"
  by (simp add: text_nodes_def)

lemma text_nodes_Cons: "text_nodes (para # ps) = concat (map text_nodes_of_run para) @ text_nodes ps"
  by (simp add: text_nodes_def)

lemma in_text_nodes_iff: "t \<in> set (text_nodes ps) \<longleftrightarrow> (\<exists>para \<in> set ps. TextRun t \<in> set para)"
proof -
  have "t \<in> set (text_nodes_of_run r) \<longleftrightarrow> r = TextRun t" for r
    by (cases r) auto
  then show ?thesis by (auto simp: text_nodes_def)
qed

lemma xpath_run_clean:
  assumes "old \<noteq> []" "new \<noteq> []" "set old \<inter> set new = {}"
    and "xpath_run old new r = TextRun t"
  shows "\<not> str_in old t"
proof (cases r)
  case (TextRun u)
  show ?thesis
  proof (cases "node_hit old u")
    case True
    with TextRun assms(4) have "t = replace_str old new u" by simp
    with assms(1-3) show ?thesis by (simp add: not_str_in_replace_str)
  next
    case False
    with TextRun assms(4) have "t = u" by simp
    with False assms(1) show ?thesis by (cases u) (auto simp: node_hit_def)
  qed
next
  case (PictureRun path width)
  with assms(4) show ?thesis by simp
qed

lemma global_replace_clean:
  assumes "old \<noteq> []" "new \<noteq> []" "set old \<inter> set new = {}"
  shows "list_all (\<lambda>t. \<not> str_in old t) (text_nodes (all_paragraphs (snd (global_replace doc old new))))"
  unfolding list_all_iff all_paragraphs_global_replace
proof
  fix t
  assume "t \<in> set (text_nodes (map (map (xpath_run old new))
           (map (snd \<circ> replace_step old new) (paragraphs doc)
            @ map (snd \<circ> replace_step old new) (concat (map table_paragraphs (tables doc)))
            @ floating doc @ concat (map section_paragraphs (sections doc)))))"
  then obtain r where "xpath_run old new r = TextRun t"
    by (auto simp: in_text_nodes_iff)
  with assms show "\<not> str_in old t" by (rule xpath_run_clean)
qed

text \<open>A run that holds the character \<open>x\<close> still holds it after the raw-tree pass.\<close>

lemma xpath_run_keeps:
  assumes "x \<notin> set old" "x \<in> set t"
  shows "\<exists>t'. xpath_run old new (TextRun t) = TextRun t' \<and> x \<in> set t'"
  using assms by (auto simp: set_replace_str_keeps)

lemma xpath_run_hit:
  assumes "old \<noteq> []" "str_in old t"
  shows "\<exists>t'. xpath_run old [x] (TextRun t) = TextRun t' \<and> x \<in> set t'"
proof -
  from assms have "t \<noteq> []" by (cases t) auto
  with assms have "node_hit old t" by (simp add: node_hit_def)
  moreover from assms have "x \<in> set (replace_str old [x] t)"
    using set_replace_str_new [of old t "[x]"] by simp
  ultimately show ?thesis by simp
qed

lemma replace_in_first_run_None:
  "replace_in_first_run old new para = None \<longleftrightarrow> list_all (\<lambda>r. \<not> node_hit old (run_text r)) para"
  by (induction para) (auto simp: node_hit_def)

lemma replace_in_first_run_Some:
  "old \<noteq> [] \<Longrightarrow> replace_in_first_run old [x] para = Some para' \<Longrightarrow>
   \<exists>t. TextRun t \<in> set para' \<and> x \<in> set t"
proof (induction para arbitrary: para')
  case Nil
  then show ?case by simp
next
  case (Cons r rs)
  show ?case
  proof (cases "run_text r \<noteq> [] \<and> str_in old (run_text r)")
    case True
    with Cons.prems have "para' = TextRun (replace_str old [x] (run_text r)) # rs" by simp
    moreover from True Cons.prems(1) have "x \<in> set (replace_str old [x] (run_text r))"
      using set_replace_str_new [of old "run_text r" "[x]"] by simp
    ultimately show ?thesis by auto
  next
    case False
    with Cons.prems obtain rs' where "replace_in_first_run old [x] rs = Some rs'" "para' = r # rs'"
      by auto
    with Cons.IH [OF Cons.prems(1)] show ?thesis by auto
  qed
qed

lemma replace_step_has_new:
  assumes "old \<noteq> []" "str_in old (para_text para)"
  shows "\<exists>t. TextRun t \<in> set (snd (replace_step old [x] para)) \<and> x \<in> set t"
proof (cases "replace_in_first_run old [x] para")
  case None
  from assms obtain r rs where para: "para = r # rs"
    by (cases para) (auto simp: para_text_def)
  from assms have "x \<in> set (replace_str old [x] (para_text para))"
    using set_replace_str_new [of old "para_text para" "[x]"] by simp
  with None para assms show ?thesis
    by (auto simp: replace_step_def replace_placeholder_in_paragraph_def para_text_def Let_def)
next
  case (Some para')
  with assms(1) obtain t where "TextRun t \<in> set para'" "x \<in> set t"
    using replace_in_first_run_Some by blast
  with Some assms show ?thesis
    by (auto simp: replace_step_def replace_placeholder_in_paragraph_def para_text_def Let_def)
qed

lemma str_in_run_para_text: "TextRun t \<in> set para \<Longrightarrow> str_in old t \<Longrightarrow> str_in old (para_text para)"
  unfolding para_text_def by (rule str_in_concat [of t]) force+

text \<open>
  The merging branch of \<^verbatim>\<open>replace_placeholder_in_paragraph\<close>: when the text of the
  paragraph holds the placeholder and no run holds it whole.
\<close>

lemma replace_placeholder_split:
  assumes "old \<noteq> []" "str_in old (para_text para)"
    and "list_all (\<lambda>r. \<not> str_in old (run_text r)) para"
  shows "replace_placeholder_in_paragraph para old new
         = (True, TextRun (replace_str old new (para_text para)) # map (\<lambda>r. TextRun []) (tl para))"
proof -
  from assms(3) have "list_all (\<lambda>r. \<not> node_hit old (run_text r)) para"
    by (simp add: list_all_iff node_hit_def)
  then have none: "replace_in_first_run old new para = None"
    by (simp add: replace_in_first_run_None)
  from assms(1,2) obtain r rs where "para = r # rs"
    by (cases para) (auto simp: para_text_def)
  with none assms(2) show ?thesis
    by (simp add: replace_placeholder_in_paragraph_def para_text_def Let_def)
qed

lemma para_text_merged:
  "para_text (TextRun s # map (\<lambda>r. TextRun []) rs) = s"
  by (induction rs) (simp_all add: para_text_def)

lemma global_step_split:
  assumes "old \<noteq> []" "new \<noteq> []" "set old \<inter> set new = {}"
    and "str_in old (para_text para)" "list_all (\<lambda>r. \<not> str_in old (run_text r)) para"
  shows "map (xpath_run old new) (snd (replace_step old new para))
         = TextRun (replace_str old new (para_text para)) # map (\<lambda>r. TextRun []) (tl para)"
proof -
  have "\<not> node_hit old (replace_str old new (para_text para))"
    using assms(1-3) by (simp add: node_hit_def not_str_in_replace_str)
  moreover have "\<not> node_hit old []"
    by (simp add: node_hit_def)
  ultimately show ?thesis
    using assms by (simp add: replace_step_def replace_placeholder_split comp_def)
qed

lemma global_replace_body:
  "paragraphs (snd (global_replace doc p r))
     = map (\<lambda>para. map (xpath_run p r) (snd (replace_step p r para))) (paragraphs doc)
   \<and> tables (snd (global_replace doc p r))
     = map (map_table (\<lambda>para. map (xpath_run p r) (snd (replace_step p r para)))) (tables doc)"
  by (simp add: global_replace_def Let_def map_table_def comp_def)

lemma global_replace_puts_new:
  assumes old: "old \<noteq> []" and x: "x \<notin> set old"
    and hit: "list_ex (str_in old) (text_nodes (all_paragraphs doc))
              \<or> list_ex (\<lambda>para. str_in old (para_text para))
                   (paragraphs doc @ concat (map table_paragraphs (tables doc)))"
  shows "list_ex (str_in [x]) (text_nodes (all_paragraphs (snd (global_replace doc old [x]))))"
proof -
  let ?body = "paragraphs doc @ concat (map table_paragraphs (tables doc))"
  let ?rest = "floating doc @ concat (map section_paragraphs (sections doc))"
  let ?mid = "map (snd \<circ> replace_step old [x]) ?body @ ?rest"
  have all: "all_paragraphs (snd (global_replace doc old [x])) = map (map (xpath_run old [x])) ?mid"
    by (simp add: all_paragraphs_global_replace)
  have goal: "list_ex (str_in [x]) (text_nodes (map (map (xpath_run old [x])) ?mid))"
    if "para \<in> set ?mid" "TextRun t \<in> set para"
      "\<exists>t'. xpath_run old [x] (TextRun t) = TextRun t' \<and> x \<in> set t'" for para t
  proof -
    from that(3) obtain t' where t': "xpath_run old [x] (TextRun t) = TextRun t'" "x \<in> set t'"
      by blast
    from that(1) have "map (xpath_run old [x]) para \<in> set (map (map (xpath_run old [x])) ?mid)"
      unfolding set_map by (rule imageI)
    moreover from that(2) t'(1) have "TextRun t' \<in> set (map (xpath_run old [x]) para)"
      by force
    ultimately have "t' \<in> set (text_nodes (map (map (xpath_run old [x])) ?mid))"
      unfolding in_text_nodes_iff by blast
    with t'(2) show ?thesis
      by (auto simp: list_ex_iff str_in_single)
  qed
  have body: ?thesis if "para \<in> set ?body" "str_in old (para_text para)" for para
  proof -
    from old that(2) obtain t where t: "TextRun t \<in> set (snd (replace_step old [x] para))" "x \<in> set t"
      using replace_step_has_new by blast
    from that(1) have "snd (replace_step old [x] para) \<in> set ?mid" by auto
    moreover from x t(2) have "\<exists>t'. xpath_run old [x] (TextRun t) = TextRun t' \<and> x \<in> set t'"
      by (rule xpath_run_keeps)
    ultimately show ?thesis
      using t(1) goal all by metis
  qed
  from hit show ?thesis
  proof
    assume "list_ex (str_in old) (text_nodes (all_paragraphs doc))"
    then obtain para t where para: "para \<in> set (all_paragraphs doc)"
      and t: "TextRun t \<in> set para" "str_in old t"
      by (auto simp: list_ex_iff in_text_nodes_iff)
    from para have "para \<in> set ?body \<or> para \<in> set ?rest"
      by (auto simp: all_paragraphs_def)
    then show ?thesis
    proof
      assume "para \<in> set ?body"
      moreover from t have "str_in old (para_text para)" by (rule str_in_run_para_text)
      ultimately show ?thesis by (rule body)
    next
      assume "para \<in> set ?rest"
      then have "para \<in> set ?mid" by auto
      moreover from old t(2) have "\<exists>t'. xpath_run old [x] (TextRun t) = TextRun t' \<and> x \<in> set t'"
        by (rule xpath_run_hit)
      ultimately show ?thesis
        using t(1) goal all by metis
    qed
  next
    assume "list_ex (\<lambda>para. str_in old (para_text para)) ?body"
    then obtain para where "para \<in> set ?body" "str_in old (para_text para)"
      by (auto simp: list_ex_iff)
    then show ?thesis by (rule body)
  qed
qed

lemma DOC_TITLE_facts:
  "DOC_TITLE \<noteq> []" "''X'' \<noteq> []" "set DOC_TITLE \<inter> set ''X'' = {}" "CHR ''X'' \<notin> set DOC_TITLE"
  by (simp_all add: DOC_TITLE_def)

section \<open>Facts about the data table\<close>

lemma fold_remove_row_tail:
  "fold remove_row (rev [length xs ..< length xs + length ys]) (xs @ ys) = xs"
proof (induction ys rule: rev_induct)
  case Nil
  then show ?case by simp
next
  case (snoc z zs)
  have "remove_row (length xs + length zs) (xs @ zs @ [z]) = xs @ zs"
    by (simp add: remove_row_def)
  with snoc show ?case by simp
qed

lemma clear_body_rows_keeps_first: "rs \<noteq> [] \<Longrightarrow> clear_body_rows rs = [hd rs]"
proof -
  assume "rs \<noteq> []"
  then obtain r rest where rs: "rs = [r] @ rest" by (cases rs) auto
  have "fold remove_row (rev [length [r] ..< length [r] + length rest]) ([r] @ rest) = [r]"
    by (rule fold_remove_row_tail)
  with rs show ?thesis by (simp add: clear_body_rows_def)
qed

lemma trows_fold_add:
  "\<exists>new. trows (fold (\<lambda>ir t. t\<lparr>trows := trows t @ [f ir t]\<rparr>) gd t) = trows t @ new
         \<and> length new = length gd"
proof (induction gd arbitrary: t)
  case Nil
  then show ?case by simp
next
  case (Cons ir gd)
  from Cons [of "t\<lparr>trows := trows t @ [f ir t]\<rparr>"]
  obtain new where
    "trows (fold (\<lambda>ir t. t\<lparr>trows := trows t @ [f ir t]\<rparr>) gd (t\<lparr>trows := trows t @ [f ir t]\<rparr>))
       = (trows t @ [f ir t]) @ new" "length new = length gd"
    by auto
  then show ?case by (intro exI [of _ "f ir t # new"]) simp
qed

lemma materialize_rows:
  assumes "trows t \<noteq> []"
  shows "\<exists>new. trows (materialize cols group_data t) = hd (trows t) # new
             \<and> length new = length group_data"
proof -
  let ?t2 = "t\<lparr>style := ''Table Grid'', trows := clear_body_rows (trows t)\<rparr>"
  from trows_fold_add [of "\<lambda>ir t. fill_row cols (map fst group_data) ir (add_row t)" group_data ?t2]
  obtain new where
    "trows (fold (\<lambda>ir t. t\<lparr>trows := trows t @ [fill_row cols (map fst group_data) ir (add_row t)]\<rparr>)
              group_data ?t2) = trows ?t2 @ new" "length new = length group_data"
    by blast
  with assms show ?thesis
    by (simp add: materialize_def reset_table_width_def Let_def clear_body_rows_keeps_first)
qed

lemma find_target_Some:
  "find_target keyword ts = Some k \<Longrightarrow> k < length ts \<and> is_target keyword (ts ! k)
     \<and> (\<forall>j < k. \<not> is_target keyword (ts ! j))"
proof (induction ts arbitrary: k)
  case Nil
  then show ?case by simp
next
  case (Cons t ts)
  show ?case
  proof (cases "is_target keyword t")
    case True
    with Cons.prems show ?thesis by simp
  next
    case False
    with Cons.prems obtain k' where k': "find_target keyword ts = Some k'" "k = Suc k'"
      by auto
    with Cons.IH [OF k'(1)] False show ?thesis
      by (auto simp: less_Suc_eq_0_disj)
  qed
qed

lemma is_target_rows: "is_target keyword t \<Longrightarrow> trows t \<noteq> []"
  by (auto simp: is_target_def)

text \<open>
  A run of the whole pipeline on a sheet of three rows with the keys \<^verbatim>\<open>Ring A\<close>,
  \<^verbatim>\<open>Ring A \<close> and \<^verbatim>\<open>Ring B\<close>: two documents, with two data rows and one.
\<close>

lemma generate_documents_example:
  "(let (res, fs) = generate_documents (example_env\<lparr>read_excel := (\<lambda>path sheet. Inr full_df)\<rparr>)
                      [''Demo'' \<mapsto> example_cfg] ''in.xlsx'' ''Demo'' Map.empty empty_fs
    in (res, folders fs,
        map_option (\<lambda>doc. (paragraphs doc, map trows (tables doc)))
          (saved fs ''output/Hasil_Demo_2026-11-05_120000/Swap A.docx''),
        map_option (\<lambda>doc. (paragraphs doc, map trows (tables doc)))
          (saved fs ''output/Hasil_Demo_2026-11-05_120000/Doc - Ring B.docx''),
        archives fs ''output/Hasil_Demo_2026-11-05_120000.zip''))
   = (Inr (''output/Hasil_Demo_2026-11-05_120000.zip'', 2),
      [''output/Hasil_Demo_2026-11-05_120000''],
      Some ([[TextRun ''Swap: A?'']],
            [[[[[TextRun ''No'']], [[TextRun ''Tower ID'']], [[TextRun ''Hostname'']]],
              [[[TextRun ''1'']], [[TextRun ''T1'']], [[TextRun ''H1'']]],
              [[[TextRun ''2'']], [[TextRun ''T2'']], [[TextRun []]]]]]),
      Some ([[TextRun ''Doc - Ring B'']],
            [[[[[TextRun ''No'']], [[TextRun ''Tower ID'']], [[TextRun ''Hostname'']]],
              [[[TextRun ''1'']], [[TextRun ''T3'']], [[TextRun ''H3'']]]]]),
      Some [''output/Hasil_Demo_2026-11-05_120000/Swap A.docx'',
            ''output/Hasil_Demo_2026-11-05_120000/Doc - Ring B.docx''])"
  by code_simp

section \<open>Facts about the search in a chain\<close>

lemma find_pos_Some:
  "find_pos p hs = Some pos \<Longrightarrow> pos < length hs \<and> hs ! pos = p \<and> (\<forall>j < pos. hs ! j \<noteq> p)"
proof (induction hs arbitrary: pos)
  case Nil
  then show ?case by simp
next
  case (Cons h hs)
  show ?case
  proof (cases "h = p")
    case True
    with Cons.prems show ?thesis by simp
  next
    case False
    with Cons.prems obtain pos' where pos': "find_pos p hs = Some pos'" "pos = Suc pos'"
      by auto
    with Cons.IH [OF pos'(1)] False show ?thesis
      by (auto simp: less_Suc_eq_0_disj)
  qed
qed

lemma find_pos_None: "find_pos p hs = None \<longleftrightarrow> p \<notin> set hs"
  by (induction hs) auto

lemma search_left_Some:
  "search_left hs n = Some l \<Longrightarrow>
   l < n \<and> is_cag (hs ! l) \<and> (\<forall>k. l < k \<and> k < n \<longrightarrow> \<not> is_cag (hs ! k))"
proof (induction n)
  case 0
  then show ?case by simp
next
  case (Suc n)
  show ?case
  proof (cases "is_cag (hs ! n)")
    case True
    with Suc.prems show ?thesis by auto
  next
    case False
    with Suc.prems have "search_left hs n = Some l" by simp
    with Suc.IH False show ?thesis
      by (auto simp: less_Suc_eq)
  qed
qed

lemma search_left_None: "search_left hs n = None \<longleftrightarrow> (\<forall>k < n. \<not> is_cag (hs ! k))"
  by (induction n) (auto simp: less_Suc_eq)

lemma search_right_Some:
  "search_right hs i = Some r \<Longrightarrow>
   i \<le> r \<and> r < length hs \<and> is_cag (hs ! r) \<and> (\<forall>k. i \<le> k \<and> k < r \<longrightarrow> \<not> is_cag (hs ! k))"
proof (induction hs i rule: search_right.induct)
  case (1 hs i)
  show ?case
  proof (cases "i < length hs")
    case False
    with "1.prems" show ?thesis by (simp add: search_right.simps [of hs i])
  next
    case True
    show ?thesis
    proof (cases "is_cag (hs ! i)")
      case cag: True
      with True "1.prems" have "r = i" by (simp add: search_right.simps [of hs i])
      with True cag show ?thesis by auto
    next
      case False
      with True "1.prems" have nxt: "search_right hs (Suc i) = Some r"
        by (simp add: search_right.simps [of hs i])
      have "\<not> is_cag (hs ! k)" if "i \<le> k" "k < r" for k
      proof (cases "k = i")
        case True
        with False show ?thesis by simp
      next
        case ne: False
        with that have "Suc i \<le> k" by simp
        with "1.IH" [OF True False nxt] that show ?thesis by blast
      qed
      with "1.IH" [OF True False nxt] show ?thesis
        by auto
    qed
  qed
qed

lemma search_right_None:
  "search_right hs i = None \<longleftrightarrow> (\<forall>k. i \<le> k \<and> k < length hs \<longrightarrow> \<not> is_cag (hs ! k))"
proof (induction hs i rule: search_right.induct)
  case (1 hs i)
  show ?case
  proof (cases "i < length hs")
    case False
    then show ?thesis by (auto simp: search_right.simps [of hs i])
  next
    case True
    show ?thesis
    proof (cases "is_cag (hs ! i)")
      case cag: True
      with True show ?thesis by (auto simp: search_right.simps [of hs i])
    next
      case False
      have "(\<forall>k. i \<le> k \<and> k < length hs \<longrightarrow> \<not> is_cag (hs ! k))
            \<longleftrightarrow> (\<forall>k. Suc i \<le> k \<and> k < length hs \<longrightarrow> \<not> is_cag (hs ! k))"
      proof (intro iffI allI impI)
        fix k
        assume "\<forall>k. i \<le> k \<and> k < length hs \<longrightarrow> \<not> is_cag (hs ! k)" "Suc i \<le> k \<and> k < length hs"
        then show "\<not> is_cag (hs ! k)" by simp
      next
        fix k
        assume all: "\<forall>k. Suc i \<le> k \<and> k < length hs \<longrightarrow> \<not> is_cag (hs ! k)"
          and k: "i \<le> k \<and> k < length hs"
        show "\<not> is_cag (hs ! k)"
        proof (cases "k = i")
          case True
          with False show ?thesis by simp
        next
          case ne: False
          with k have "Suc i \<le> k" by simp
          with all k show ?thesis by blast
        qed
      qed
      with "1.IH" [OF True False] True False show ?thesis
        by (simp add: search_right.simps [of hs i])
    qed
  qed
qed

text \<open>
  The choice within a chain: the result is a C/AG name at a position other than the
  queried one, no C/AG name is nearer, and one that is as near stands to its right.
\<close>

lemma nearest_in_chain_Some:
  assumes pos: "pos < length hs" and res: "nearest_in_chain hs pos = Some h"
  shows "\<exists>j < length hs. j \<noteq> pos \<and> hs ! j = h \<and> is_cag h
           \<and> (\<forall>k < length hs. k \<noteq> pos \<and> is_cag (hs ! k)
                 \<longrightarrow> \<bar>int j - int pos\<bar> \<le> \<bar>int k - int pos\<bar>
                     \<and> (\<bar>int k - int pos\<bar> = \<bar>int j - int pos\<bar> \<longrightarrow> j \<le> k))"
proof (cases "search_left hs pos")
  case None
  note left = None
  show ?thesis
  proof (cases "search_right hs (Suc pos)")
    case None
    with left res show ?thesis by (simp add: nearest_in_chain_def)
  next
    case (Some r)
    with left res have h: "h = hs ! r" by (simp add: nearest_in_chain_def)
    from Some have r: "Suc pos \<le> r" "r < length hs" "is_cag (hs ! r)"
      and gap: "\<forall>k. Suc pos \<le> k \<and> k < r \<longrightarrow> \<not> is_cag (hs ! k)"
      using search_right_Some by blast+
    from left have nol: "\<forall>k < pos. \<not> is_cag (hs ! k)" by (simp add: search_left_None)
    have "\<bar>int r - int pos\<bar> \<le> \<bar>int k - int pos\<bar> \<and> (\<bar>int k - int pos\<bar> = \<bar>int r - int pos\<bar> \<longrightarrow> r \<le> k)"
      if "k < length hs" "k \<noteq> pos" "is_cag (hs ! k)" for k
    proof -
      from that nol have "pos < k" by (metis linorder_neqE_nat)
      with that gap have "r \<le> k" by (metis Suc_leI not_le_imp_less)
      with r(1) show ?thesis by simp
    qed
    with r h show ?thesis by (intro exI [of _ r]) auto
  qed
next
  case (Some l)
  then have l: "l < pos" "is_cag (hs ! l)"
    and lgap: "\<forall>k. l < k \<and> k < pos \<longrightarrow> \<not> is_cag (hs ! k)"
    using search_left_Some by blast+
  show ?thesis
  proof (cases "search_right hs (Suc pos)")
    case None
    with Some res have h: "h = hs ! l" by (simp add: nearest_in_chain_def)
    from None have nor: "\<forall>k. Suc pos \<le> k \<and> k < length hs \<longrightarrow> \<not> is_cag (hs ! k)"
      by (simp add: search_right_None)
    have "\<bar>int l - int pos\<bar> \<le> \<bar>int k - int pos\<bar> \<and> (\<bar>int k - int pos\<bar> = \<bar>int l - int pos\<bar> \<longrightarrow> l \<le> k)"
      if "k < length hs" "k \<noteq> pos" "is_cag (hs ! k)" for k
    proof -
      from that nor have "k < pos" by (metis Suc_leI linorder_neqE_nat)
      with that lgap have "k \<le> l" by (metis not_le_imp_less)
      with l(1) \<open>k < pos\<close> show ?thesis by auto
    qed
    with l h pos show ?thesis by (intro exI [of _ l]) auto
  next
    case right: (Some r)
    then have r: "Suc pos \<le> r" "r < length hs" "is_cag (hs ! r)"
      and rgap: "\<forall>k. Suc pos \<le> k \<and> k < r \<longrightarrow> \<not> is_cag (hs ! k)"
      using search_right_Some by blast+
    have far: "(k \<le> l \<or> r \<le> k)" if "k < length hs" "k \<noteq> pos" "is_cag (hs ! k)" for k
    proof (cases "k < pos")
      case True
      with that lgap show ?thesis by (metis not_le_imp_less)
    next
      case False
      with that have "Suc pos \<le> k" by simp
      with that rgap show ?thesis by (metis not_le_imp_less)
    qed
    show ?thesis
    proof (cases "pos - l \<le> r - pos")
      case True
      with Some right res have h: "h = hs ! l" by (simp add: nearest_in_chain_def)
      have "\<bar>int l - int pos\<bar> \<le> \<bar>int k - int pos\<bar> \<and> (\<bar>int k - int pos\<bar> = \<bar>int l - int pos\<bar> \<longrightarrow> l \<le> k)"
        if "k < length hs" "k \<noteq> pos" "is_cag (hs ! k)" for k
        using far [OF that] l(1) r(1) True by auto
      with l h pos show ?thesis by (intro exI [of _ l]) auto
    next
      case False
      with Some right res have h: "h = hs ! r" by (simp add: nearest_in_chain_def)
      have "\<bar>int r - int pos\<bar> \<le> \<bar>int k - int pos\<bar> \<and> (\<bar>int k - int pos\<bar> = \<bar>int r - int pos\<bar> \<longrightarrow> r \<le> k)"
        if "k < length hs" "k \<noteq> pos" "is_cag (hs ! k)" for k
        using far [OF that] l(1) r(1) False by auto
      with r h show ?thesis by (intro exI [of _ r]) auto
    qed
  qed
qed

lemma nearest_in_chain_None:
  "pos < length hs \<Longrightarrow>
   nearest_in_chain hs pos = None \<longleftrightarrow> (\<forall>k < length hs. k \<noteq> pos \<longrightarrow> \<not> is_cag (hs ! k))"
proof -
  assume pos: "pos < length hs"
  have "nearest_in_chain hs pos = None
        \<longleftrightarrow> search_left hs pos = None \<and> search_right hs (Suc pos) = None"
    by (simp add: nearest_in_chain_def split: option.split)
  also have "\<dots> \<longleftrightarrow> (\<forall>k < pos. \<not> is_cag (hs ! k))
                    \<and> (\<forall>k. Suc pos \<le> k \<and> k < length hs \<longrightarrow> \<not> is_cag (hs ! k))"
    by (simp add: search_left_None search_right_None)
  also have "\<dots> \<longleftrightarrow> (\<forall>k < length hs. k \<noteq> pos \<longrightarrow> \<not> is_cag (hs ! k))"
  proof (intro iffI allI impI)
    fix k
    assume a: "(\<forall>k < pos. \<not> is_cag (hs ! k))
                    \<and> (\<forall>k. Suc pos \<le> k \<and> k < length hs \<longrightarrow> \<not> is_cag (hs ! k))"
      and k: "k < length hs" "k \<noteq> pos"
    show "\<not> is_cag (hs ! k)"
    proof (cases "k < pos")
      case True
      with a show ?thesis by simp
    next
      case False
      with k have "Suc pos \<le> k" by simp
      with a k show ?thesis by blast
    qed
  next
    assume a: "\<forall>k < length hs. k \<noteq> pos \<longrightarrow> \<not> is_cag (hs ! k)"
    have "\<not> is_cag (hs ! k)" if "k < pos" for k
      using a that pos by simp
    moreover have "\<not> is_cag (hs ! k)" if "Suc pos \<le> k \<and> k < length hs" for k
      using a that by simp
    ultimately show "(\<forall>k < pos. \<not> is_cag (hs ! k))
                    \<and> (\<forall>k. Suc pos \<le> k \<and> k < length hs \<longrightarrow> \<not> is_cag (hs ! k))"
      by blast
  qed
  finally show ?thesis .
qed

lemma hostnames_of_Nil: "hostnames_of [] = []"
  by (simp add: hostnames_of_def strip_def lstrip_def rstrip_def)

lemma find_nearest_cag_skip:
  "list_all (\<lambda>c. pag \<notin> set (hostnames_of c)) pre \<Longrightarrow>
   find_nearest_cag pag (pre @ topo) = find_nearest_cag pag topo"
proof (induction pre)
  case Nil
  then show ?case by simp
next
  case (Cons c pre)
  then have "find_pos pag (hostnames_of c) = None"
    by (simp add: find_pos_None)
  with Cons show ?case by simp
qed

lemma find_nearest_cag_Cons:
  "find_pos pag (hostnames_of chain) = Some pos \<Longrightarrow>
   find_nearest_cag pag (chain # topo)
     = (case nearest_in_chain (hostnames_of chain) pos of
          Some h \<Rightarrow> Some h
        | None \<Rightarrow> find_nearest_cag pag topo)"
  by (cases "chain = []") (auto simp: hostnames_of_Nil)

section \<open>Facts about the auto-fill loop\<close>

text \<open>What the loop does to one row, whatever the counter and the list of misses are.\<close>

lemma autofill_rows_map:
  "fst (autofill_rows lookup key_idx target_idx rws filled_count not_found)
     = map (\<lambda>r. if \<not> blank (cell_at r key_idx) \<and> blank (cell_at r target_idx)
                   \<and> (case lookup (lower (cell_at r key_idx)) of None \<Rightarrow> [] | Some v \<Rightarrow> v) \<noteq> []
                then put_cell r target_idx
                       (case lookup (lower (cell_at r key_idx)) of None \<Rightarrow> [] | Some v \<Rightarrow> v)
                else r) rws"
proof (induction rws arbitrary: filled_count not_found)
  case Nil
  then show ?case by simp
next
  case (Cons r rws)
  show ?case
    by (simp add: Let_def split_def Cons.IH)
qed

lemma autofill_rows_frame:
  assumes "autofill_rows lookup key_idx target_idx rws filled_count not_found = (rws', n, nf)"
  shows "length rws' = length rws
     \<and> (\<forall>i < length rws.
          (\<not> blank (cell_at (rws ! i) target_idx) \<longrightarrow> rws' ! i = rws ! i)
          \<and> (rws' ! i \<noteq> rws ! i \<longrightarrow>
               blank (cell_at (rws ! i) target_idx) \<and> \<not> blank (cell_at (rws ! i) key_idx)
               \<and> (\<exists>v. lookup (lower (cell_at (rws ! i) key_idx)) = Some v \<and> v \<noteq> []
                      \<and> rws' ! i = put_cell (rws ! i) target_idx v)))"
proof -
  from assms have "rws' = fst (autofill_rows lookup key_idx target_idx rws filled_count not_found)"
    by simp
  then have rws': "rws' = map (\<lambda>r. if \<not> blank (cell_at r key_idx) \<and> blank (cell_at r target_idx)
                   \<and> (case lookup (lower (cell_at r key_idx)) of None \<Rightarrow> [] | Some v \<Rightarrow> v) \<noteq> []
                then put_cell r target_idx
                       (case lookup (lower (cell_at r key_idx)) of None \<Rightarrow> [] | Some v \<Rightarrow> v)
                else r) rws"
    by (simp only: autofill_rows_map)
  show ?thesis
    unfolding rws' by (auto split: option.splits if_splits)
qed

lemma put_cell_nth: "put_cell r i v ! i = v"
  by (simp add: put_cell_def)

section \<open>Claims about the substitution\<close>

text \<open>
  Claim C1, as stated, fails. A document whose only text is a header paragraph with the
  title placeholder split over two runs comes back unchanged from
  \<^verbatim>\<open>global_replace(doc, "{{DOC_TITLE}}", "X")\<close>: the count is 0, the header still
  reads \<^verbatim>\<open>{{DOC_TITLE}}\<close>, and no text node of the document contains \<^verbatim>\<open>X\<close>. The
  raw-tree pass looks at one text node at a time, and only the body paragraphs and the
  paragraphs of table cells go through the pass that joins the runs.
\<close>

theorem global_replace_header_split:
  "global_replace split_header_doc DOC_TITLE ''X'' = (0, split_header_doc)
   \<and> text_nodes (all_paragraphs split_header_doc) = [''{{DOC_'', ''TITLE}}'']
   \<and> \<not> str_in ''X'' ''{{DOC_''
   \<and> \<not> str_in ''X'' ''TITLE}}''
   \<and> str_in DOC_TITLE (para_text (hd (header (hd (sections split_header_doc)))))"
  by (simp add: global_replace_def split_header_doc_def DOC_TITLE_def xpath_section_def
      xpath_replace_def text_nodes_def node_hit_def count_true_def all_paragraphs_def
      section_paragraphs_def para_text_def)

lemma global_replace_title_doc:
  "global_replace title_doc DOC_TITLE ''X'' =
     (4, \<lparr>paragraphs = [[TextRun ''Title: X (draft)'', TextRun [], TextRun []], [TextRun ''plain'']],
          tables = [\<lparr>style = ''Normal'', autofit = False, grid_cols = 1,
                     trows = [[[[TextRun ''X / X'']]]]\<rparr>],
          floating = [[TextRun ''box X'']],
          sections = [\<lparr>header = [[TextRun ''X'']],
                       first_page_header = [], even_page_header = [],
                       footer = [[TextRun ''page'']], first_page_footer = [],
                       even_page_footer = []\<rparr>]\<rparr>)"
  by (simp add: global_replace_def title_doc_def split_paragraph_def DOC_TITLE_def
      xpath_section_def xpath_replace_def text_nodes_def node_hit_def count_true_def
      replace_step_def replace_placeholder_in_paragraph_def para_text_def
      map_table_def table_paragraphs_def Let_def)

text \<open>
  Claim C1, amended. After \<^verbatim>\<open>global_replace(doc, "{{DOC_TITLE}}", "X")\<close> no single
  text node of the body paragraphs, the table cells, the floating containers, the headers
  and the footers contains the placeholder. If before the call some text node contained
  it, or the joined run texts of some body paragraph or table-cell paragraph did, then
  some text node contains \<^verbatim>\<open>X\<close> afterwards. A body paragraph or table-cell paragraph
  whose joined run texts contain the placeholder while no run holds it whole ends with
  the rewritten text in its first run and the empty text in the others.
\<close>

theorem global_replace_doc_title:
  "let doc' = snd (global_replace doc DOC_TITLE ''X'') in
     list_all (\<lambda>t. \<not> str_in DOC_TITLE t) (text_nodes (all_paragraphs doc'))
   \<and> (list_ex (str_in DOC_TITLE) (text_nodes (all_paragraphs doc))
        \<or> list_ex (\<lambda>para. str_in DOC_TITLE (para_text para))
             (paragraphs doc @ concat (map table_paragraphs (tables doc)))
       \<longrightarrow> list_ex (str_in ''X'') (text_nodes (all_paragraphs doc')))
   \<and> (\<exists>F. paragraphs doc' = map F (paragraphs doc)
          \<and> tables doc' = map (map_table F) (tables doc)
          \<and> (\<forall>para. str_in DOC_TITLE (para_text para)
                    \<and> list_all (\<lambda>r. \<not> str_in DOC_TITLE (run_text r)) para
                \<longrightarrow> F para = TextRun (replace_str DOC_TITLE ''X'' (para_text para))
                              # map (\<lambda>r. TextRun []) (tl para)))"
proof -
  let ?doc' = "snd (global_replace doc DOC_TITLE ''X'')"
  let ?F = "\<lambda>para. map (xpath_run DOC_TITLE ''X'') (snd (replace_step DOC_TITLE ''X'' para))"
  have clean: "list_all (\<lambda>t. \<not> str_in DOC_TITLE t) (text_nodes (all_paragraphs ?doc'))"
    using DOC_TITLE_facts(1-3) by (rule global_replace_clean)
  have new: "list_ex (str_in ''X'') (text_nodes (all_paragraphs ?doc'))"
    if "list_ex (str_in DOC_TITLE) (text_nodes (all_paragraphs doc))
        \<or> list_ex (\<lambda>para. str_in DOC_TITLE (para_text para))
             (paragraphs doc @ concat (map table_paragraphs (tables doc)))"
    using DOC_TITLE_facts(1,4) that by (rule global_replace_puts_new)
  have split: "?F para = TextRun (replace_str DOC_TITLE ''X'' (para_text para))
                         # map (\<lambda>r. TextRun []) (tl para)"
    if "str_in DOC_TITLE (para_text para) \<and> list_all (\<lambda>r. \<not> str_in DOC_TITLE (run_text r)) para"
    for para
    using DOC_TITLE_facts(1-3) that by (intro global_step_split) simp_all
  have "paragraphs ?doc' = map ?F (paragraphs doc) \<and> tables ?doc' = map (map_table ?F) (tables doc)"
    by (rule global_replace_body)
  with split have "\<exists>F. paragraphs ?doc' = map F (paragraphs doc)
          \<and> tables ?doc' = map (map_table F) (tables doc)
          \<and> (\<forall>para. str_in DOC_TITLE (para_text para)
                    \<and> list_all (\<lambda>r. \<not> str_in DOC_TITLE (run_text r)) para
                \<longrightarrow> F para = TextRun (replace_str DOC_TITLE ''X'' (para_text para))
                              # map (\<lambda>r. TextRun []) (tl para))"
    by blast
  with clean new show ?thesis
    unfolding Let_def by blast
qed

theorem global_replace_doc_title_witness:
  "list_ex (str_in DOC_TITLE) (text_nodes (all_paragraphs title_doc))
   \<and> list_all (\<lambda>t. \<not> str_in DOC_TITLE t)
       (text_nodes (all_paragraphs (snd (global_replace title_doc DOC_TITLE ''X''))))
   \<and> list_ex (str_in ''X'')
       (text_nodes (all_paragraphs (snd (global_replace title_doc DOC_TITLE ''X''))))
   \<and> hd (paragraphs (snd (global_replace title_doc DOC_TITLE ''X'')))
       = [TextRun ''Title: X (draft)'', TextRun [], TextRun []]"
proof -
  have hit: "list_ex (str_in DOC_TITLE) (text_nodes (all_paragraphs title_doc))"
    by (simp add: title_doc_def all_paragraphs_def table_paragraphs_def section_paragraphs_def
        text_nodes_def split_paragraph_def DOC_TITLE_def)
  from global_replace_doc_title [of title_doc] hit show ?thesis
    by (simp add: Let_def global_replace_title_doc)
qed

text \<open>
  Claim C2 at a paragraph of four runs: the first holds the placeholder whole, the other
  three hold a second one in pieces. \<^verbatim>\<open>replace_placeholder_in_paragraph\<close> rewrites
  the first run and returns; the split placeholder stays, so the paragraph reads
  \<^verbatim>\<open>X{{DOC_TITLE}}\<close> where the claim has \<^verbatim>\<open>XX\<close>. The lemma
  \<open>replace_placeholder_split\<close> is the claim for the paragraphs in which no run holds
  the placeholder whole.
\<close>

theorem replace_placeholder_mixed_paragraph:
  "replace_placeholder_in_paragraph mixed_paragraph DOC_TITLE ''X''
     = (True, [TextRun ''X'', TextRun ''{{DO'', TextRun ''C_TIT'', TextRun ''LE}}''])
   \<and> para_text (snd (replace_placeholder_in_paragraph mixed_paragraph DOC_TITLE ''X''))
     = ''X{{DOC_TITLE}}''
   \<and> replace_str DOC_TITLE ''X'' (para_text mixed_paragraph) = ''XX''"
  by (simp add: replace_placeholder_in_paragraph_def mixed_paragraph_def DOC_TITLE_def
      para_text_def Let_def)

section \<open>Claims about the pipeline\<close>

text \<open>
  Claim C5. When the target table is found, it has a first row (the search takes no
  table without one), and after the table is filled it has one row for the header and
  one row for every record of the group; the header row is the one the template had.
  The other tables of the document are left as they were.
\<close>

theorem materialize_row_count:
  "find_target keyword (tables doc) = Some k \<longrightarrow>
     (let t = tables doc ! k;
          doc' = fill_target_table keyword cols group_data doc;
          t' = tables doc' ! k
      in trows t \<noteq> []
         \<and> length (trows t') = header_row_count + length group_data
         \<and> take header_row_count (trows t') = take header_row_count (trows t)
         \<and> length (tables doc') = length (tables doc)
         \<and> (\<forall>j < length (tables doc). j \<noteq> k \<longrightarrow> tables doc' ! j = tables doc ! j))"
proof
  assume found: "find_target keyword (tables doc) = Some k"
  then have k: "k < length (tables doc)" and "is_target keyword (tables doc ! k)"
    using find_target_Some by blast+
  then have rows: "trows (tables doc ! k) \<noteq> []" by (simp add: is_target_rows)
  then obtain new where new:
    "trows (materialize cols group_data (tables doc ! k)) = hd (trows (tables doc ! k)) # new"
    "length new = length group_data"
    using materialize_rows by blast
  from rows have "take 1 (trows (tables doc ! k)) = [hd (trows (tables doc ! k))]"
    by (cases "trows (tables doc ! k)") auto
  with found k rows new show
    "let t = tables doc ! k;
         doc' = fill_target_table keyword cols group_data doc;
         t' = tables doc' ! k
     in trows t \<noteq> []
        \<and> length (trows t') = header_row_count + length group_data
        \<and> take header_row_count (trows t') = take header_row_count (trows t)
        \<and> length (tables doc') = length (tables doc)
        \<and> (\<forall>j < length (tables doc). j \<noteq> k \<longrightarrow> tables doc' ! j = tables doc ! j)"
    by (simp add: fill_target_table_def header_row_count_def Let_def)
qed

theorem materialize_row_count_witness:
  "find_target ''Tower ID'' (tables example_doc) = Some 0
   \<and> trows (tables (fill_target_table ''Tower ID'' [''Tower ID'', ''Hostname''] example_group
                     example_doc) ! 0)
       = [[[[TextRun ''No'']], [[TextRun ''Tower ID'']], [[TextRun ''Hostname'']]],
          [[[TextRun ''1'']], [[TextRun ''T1'']], [[TextRun ''H1'']]],
          [[[TextRun ''2'']], [[TextRun ''T2'']], [[TextRun []]]],
          [[[TextRun ''3'']], [[TextRun ''T3'']], [[TextRun []]]]]
   \<and> length (trows (tables (fill_target_table ''Tower ID'' [''Tower ID'', ''Hostname'']
                              example_group example_doc) ! 0))
       = header_row_count + length example_group"
proof -
  have found: "find_target ''Tower ID'' (tables example_doc) = Some 0"
    by (simp add: example_doc_def example_table_def is_target_def cell_text_def para_text_def)
  have rows: "trows (tables (fill_target_table ''Tower ID'' [''Tower ID'', ''Hostname''] example_group
                     example_doc) ! 0)
       = [[[[TextRun ''No'']], [[TextRun ''Tower ID'']], [[TextRun ''Hostname'']]],
          [[[TextRun ''1'']], [[TextRun ''T1'']], [[TextRun ''H1'']]],
          [[[TextRun ''2'']], [[TextRun ''T2'']], [[TextRun []]]],
          [[[TextRun ''3'']], [[TextRun ''T3'']], [[TextRun []]]]]"
    by code_simp
  from materialize_row_count [of "''Tower ID''" example_doc 0 "[''Tower ID'', ''Hostname'']"
      example_group] found rows
  show ?thesis by (simp add: Let_def)
qed

text \<open>
  Claim C6, as stated, fails for the empty text. With a scope whose title column is also
  its grouping column, a row with no ring has the empty text in that column after the
  normalisation; \<^verbatim>\<open>pd.notna('')\<close> is true, so the title of its group is the empty
  text and not \<^verbatim>\<open>Doc - \<close> followed by the key.
\<close>

theorem doc_title_blank_ring:
  "groupby ''Ring'' (normalize_ring_col ''Ring'' blank_ring_df)
     = [('''', [(0, [''Ring'' \<mapsto> Str ''''])])]
   \<and> doc_title_of ''Ring'' '''' [(0, [''Ring'' \<mapsto> Str ''''])] = ''''
   \<and> doc_title_of ''Ring'' '''' [(0, [''Ring'' \<mapsto> Str ''''])] \<noteq> ''Doc - '' @ ''''"
  by (simp add: groupby_def group_keys_def normalize_ring_col_def blank_ring_df_def group_key_def
      fillna_str_def normalize_ring_def strip_def lstrip_def rstrip_def
      doc_title_of_def iloc0_def row_get_def)

text \<open>
  Claim C6, amended. The title of a group is the text in the title cell of the first
  row of the group, whatever that text is. The fallback \<^verbatim>\<open>Doc - {key}\<close> is used
  exactly when that cell is NaN or the row has no such column.
\<close>

theorem doc_title_rule:
  "doc_title_of title group_name group_data =
     (case iloc0 group_data title of
        Some (Str s) \<Rightarrow> s
      | Some NaN \<Rightarrow> ''Doc - '' @ group_name
      | None \<Rightarrow> ''Doc - '' @ group_name)"
  by (simp add: doc_title_of_def row_get_def split: option.split cell.split)

text \<open>
  Claim C7 at a document whose only table has one row with the image placeholder in both
  of its cells, for a scope with topology images and a group whose image file exists:
  the loop over the cells of a row does not test \<^verbatim>\<open>image_inserted\<close>, and the document
  ends with two embedded pictures where the claim allows one.
\<close>

theorem topology_image_two_cells:
  "embedded_pictures two_cell_doc = 0
   \<and> topology_step example_env example_cfg [''Ring A'' \<mapsto> ''a.png''] ''Ring A'' two_cell_doc
     = two_cell_doc\<lparr>tables :=
         [\<lparr>style = ''Normal'', autofit = False, grid_cols = 2,
           trows = [[[[PictureRun ''a.png'' 5029200]], [[PictureRun ''a.png'' 5029200]]]]\<rparr>]\<rparr>
   \<and> embedded_pictures
       (topology_step example_env example_cfg [''Ring A'' \<mapsto> ''a.png''] ''Ring A'' two_cell_doc)
     = 2"
  by (simp add: topology_step_def example_env_def example_cfg_def two_cell_doc_def
      insert_topology_image_def put_picture_def TOPOLOGY_IMAGE_def para_text_def
      embedded_pictures_def pictures_in_def all_paragraphs_def table_paragraphs_def)

text \<open>
  Claim C8. When the sheet lacks a column of the column mapping, the grouping column or
  the title column, \<^verbatim>\<open>generate_documents\<close> returns the error that lists the missing
  columns; no document has been saved and no archive written (the output directory has
  been made by then).
\<close>

theorem missing_columns_fatal:
  "config scope_key = Some cfg
   \<and> read_excel e excel_path (excel_sheet cfg) = Inr df
   \<and> \<not> set (columns_mapping cfg @ [ring_col cfg, title_col cfg]) \<subseteq> set (columns df)
   \<longrightarrow> (let missing = filter (\<lambda>c. c \<notin> set (columns df))
                         (columns_mapping cfg @ [ring_col cfg, title_col cfg]);
            (res, fs') = generate_documents e config excel_path scope_key topology_images fs
        in missing \<noteq> []
           \<and> res = Inl (MissingColumns missing)
           \<and> saved fs' = saved fs
           \<and> archives fs' = archives fs)"
proof
  assume a: "config scope_key = Some cfg
   \<and> read_excel e excel_path (excel_sheet cfg) = Inr df
   \<and> \<not> set (columns_mapping cfg @ [ring_col cfg, title_col cfg]) \<subseteq> set (columns df)"
  let ?missing = "filter (\<lambda>c. c \<notin> set (columns df))
                    (columns_mapping cfg @ [ring_col cfg, title_col cfg])"
  from a have "?missing \<noteq> []"
    by (auto simp: filter_empty_conv)
  with a show "let missing = ?missing;
            (res, fs') = generate_documents e config excel_path scope_key topology_images fs
        in missing \<noteq> []
           \<and> res = Inl (MissingColumns missing)
           \<and> saved fs' = saved fs
           \<and> archives fs' = archives fs"
    by (simp add: generate_documents_def Let_def)
qed

theorem missing_columns_fatal_witness:
  "generate_documents example_env [''Demo'' \<mapsto> example_cfg] ''in.xlsx'' ''Demo'' Map.empty empty_fs
     = (Inl (MissingColumns [''Tower ID'', ''Hostname'']),
        empty_fs\<lparr>folders := [''output/Hasil_Demo_2026-11-05_120000'']\<rparr>)"
proof -
  have "[''Demo'' \<mapsto> example_cfg] ''Demo'' = Some example_cfg
     \<and> read_excel example_env ''in.xlsx'' (excel_sheet example_cfg) = Inr example_df
     \<and> \<not> set (columns_mapping example_cfg @ [ring_col example_cfg, title_col example_cfg])
          \<subseteq> set (columns example_df)"
    by (simp add: example_env_def example_cfg_def example_df_def)
  with missing_columns_fatal [of "[''Demo'' \<mapsto> example_cfg]" "''Demo''" example_cfg example_env
      "''in.xlsx''" example_df Map.empty empty_fs]
  show ?thesis
    by (simp add: generate_documents_def example_env_def example_cfg_def example_df_def
        empty_fs_def Let_def)
qed

section \<open>Claims about the grouping\<close>

text \<open>
  Claim C3. The groups are a partition of the rows of the sheet. The grouping column is
  first overwritten by its normalised text, which turns a missing key into the empty
  text, and every other cell is left as it was. The keys of the groups are distinct, no
  group is empty, every row of a group carries the key of the group, the rows of all
  groups together are the rows of the frame with their index labels, each once, and
  every row position of the sheet occurs in exactly one group.
\<close>

theorem grouping_is_partition:
  "let df1 = normalize_ring_col col df; gs = groupby col df1 in
     length (rows df1) = length (rows df)
   \<and> (\<forall>i < length (rows df).
        rows df1 ! i = (rows df ! i)(col \<mapsto> Str (normalize_ring (fillna_str ((rows df ! i) col)))))
   \<and> distinct (map fst gs)
   \<and> list_all (\<lambda>(k, g). g \<noteq> [] \<and> list_all (\<lambda>ir. group_key col (snd ir) = Some k) g) gs
   \<and> mset (concat (map snd gs)) = mset (enumerate 0 (rows df1))
   \<and> (\<forall>i < length (rows df). length (filter (\<lambda>(k, g). i \<in> fst ` set g) gs) = 1)"
proof -
  let ?df1 = "normalize_ring_col col df"
  have len: "length (rows ?df1) = length (rows df)"
    by (simp add: normalize_ring_col_def)
  have keyed: "\<forall>r \<in> set (rows ?df1). \<exists>k. group_key col r = Some k"
    by (auto simp: normalize_ring_col_def group_key_def)
  have one: "length (filter (\<lambda>(k, g). i \<in> fst ` set g) (groupby col ?df1)) = 1"
    if "i < length (rows df)" for i
    using that groupby_exactly_one [of i ?df1 col] len
    by (simp add: group_key_normalize_ring_col)
  show ?thesis
    unfolding Let_def
    using len one groupby_nonempty_groups [of col ?df1] groupby_mset [OF keyed]
    by (simp add: normalize_ring_col_nth groupby_keys distinct_group_keys)
qed

theorem grouping_is_partition_witness:
  "(let gs = groupby ''Ring'' (normalize_ring_col ''Ring'' example_df) in
     map fst gs = ['''', ''Ring A'', ''Ring B'']
   \<and> map (\<lambda>g. map fst (snd g)) gs = [[2], [0, 1], [3]]
   \<and> length (filter (\<lambda>(k, g). 2 \<in> fst ` set g) gs) = 1)"
  using grouping_is_partition [of "''Ring''" example_df]
  by (simp add: example_df_def groupby_def group_keys_def normalize_ring_col_def group_key_def
      fillna_str_def normalize_ring_def strip_def lstrip_def rstrip_def isspace_def enumerate_eq_zip)

lemma same_key_same_group:
  assumes i: "i < length (rows df)" and j: "j < length (rows df)"
    and eq: "normalize_ring (fillna_str ((rows df ! i) col))
             = normalize_ring (fillna_str ((rows df ! j) col))"
  shows "\<exists>g. (normalize_ring (fillna_str ((rows df ! i) col)), g)
               \<in> set (groupby col (normalize_ring_col col df))
             \<and> i \<in> fst ` set g \<and> j \<in> fst ` set g"
proof -
  let ?df1 = "normalize_ring_col col df"
  let ?k = "normalize_ring (fillna_str ((rows df ! i) col))"
  let ?g = "filter (\<lambda>ir. group_key col (snd ir) = Some ?k) (enumerate 0 (rows ?df1))"
  have len: "length (rows ?df1) = length (rows df)"
    by (simp add: normalize_ring_col_def)
  have ki: "group_key col (rows ?df1 ! i) = Some ?k"
    using i by (rule group_key_normalize_ring_col)
  have kj: "group_key col (rows ?df1 ! j) = Some ?k"
    using j eq by (simp add: group_key_normalize_ring_col)
  have "(i, rows ?df1 ! i) \<in> set ?g"
    using i ki len by (simp add: in_set_enumerate_eq)
  then have gi: "i \<in> fst ` set ?g" by force
  have "(j, rows ?df1 ! j) \<in> set ?g"
    using j kj len by (simp add: in_set_enumerate_eq)
  then have gj: "j \<in> fst ` set ?g" by force
  have "rows ?df1 ! i \<in> set (rows ?df1)"
    using i len by simp
  with ki have "?k \<in> set (group_keys col ?df1)"
    by (auto simp: set_group_keys)
  then have "(?k, ?g) \<in> set (groupby col ?df1)"
    by (auto simp: groupby_def)
  with gi gj show ?thesis by blast
qed

text \<open>
  Claim C4. The normalisation of the grouping key (strip, then collapse every run of
  whitespace to one space) is idempotent. It gives the same text for two keys that
  differ in their surrounding whitespace only, and for two keys that differ in one run
  of whitespace only. Two rows whose keys have the same normalised text are members of
  the same group, the one named by that text.
\<close>

theorem normalize_ring_idempotent:
  "normalize_ring (normalize_ring s) = normalize_ring s
   \<and> (list_all isspace pre \<and> list_all isspace post
        \<longrightarrow> normalize_ring (pre @ s @ post) = normalize_ring s)
   \<and> (w1 \<noteq> [] \<and> list_all isspace w1 \<and> w2 \<noteq> [] \<and> list_all isspace w2
        \<longrightarrow> normalize_ring (u @ w1 @ v) = normalize_ring (u @ w2 @ v))
   \<and> (i < length (rows df) \<and> j < length (rows df)
        \<and> normalize_ring (fillna_str ((rows df ! i) col))
            = normalize_ring (fillna_str ((rows df ! j) col))
        \<longrightarrow> (\<exists>g. (normalize_ring (fillna_str ((rows df ! i) col)), g)
                    \<in> set (groupby col (normalize_ring_col col df))
                  \<and> i \<in> fst ` set g \<and> j \<in> fst ` set g))"
proof (intro conjI impI)
  show "normalize_ring (normalize_ring s) = normalize_ring s"
    by (rule normalize_ring_idem)
next
  assume "list_all isspace pre \<and> list_all isspace post"
  then show "normalize_ring (pre @ s @ post) = normalize_ring s"
    by (simp add: normalize_ring_def strip_surrounding)
next
  assume "w1 \<noteq> [] \<and> list_all isspace w1 \<and> w2 \<noteq> [] \<and> list_all isspace w2"
  then show "normalize_ring (u @ w1 @ v) = normalize_ring (u @ w2 @ v)"
    by (simp add: normalize_ring_run)
next
  assume "i < length (rows df) \<and> j < length (rows df)
        \<and> normalize_ring (fillna_str ((rows df ! i) col))
            = normalize_ring (fillna_str ((rows df ! j) col))"
  then show "\<exists>g. (normalize_ring (fillna_str ((rows df ! i) col)), g)
                    \<in> set (groupby col (normalize_ring_col col df))
                  \<and> i \<in> fst ` set g \<and> j \<in> fst ` set g"
    by (intro same_key_same_group) simp_all
qed

theorem normalize_ring_idempotent_witness:
  "normalize_ring ''  Ring   A '' = ''Ring A''
   \<and> normalize_ring ''Ring A'' = ''Ring A''
   \<and> normalize_ring (CHR 0xA0 # ''Ring'' @ [CHR 0x20, CHR 0xA0, CHR 0x85] @ ''A'') = ''Ring A''
   \<and> normalize_ring (''  '' @ ''Ring   A'' @ '' '') = normalize_ring ''Ring   A''
   \<and> normalize_ring (''Ring'' @ ''   '' @ ''A'') = normalize_ring (''Ring'' @ '' '' @ ''A'')
   \<and> (\<exists>g. (''Ring A'', g) \<in> set (groupby ''Ring'' (normalize_ring_col ''Ring'' example_df))
          \<and> 0 \<in> fst ` set g \<and> 1 \<in> fst ` set g)"
proof -
  have norm: "normalize_ring ''  Ring   A '' = ''Ring A''" "normalize_ring ''Ring A'' = ''Ring A''"
    "normalize_ring (CHR 0xA0 # ''Ring'' @ [CHR 0x20, CHR 0xA0, CHR 0x85] @ ''A'') = ''Ring A''"
    by (simp_all add: normalize_ring_def strip_def lstrip_def rstrip_def isspace_def)
  have ws: "list_all isspace ''  ''" "list_all isspace '' ''" "list_all isspace ''   ''"
    by (simp_all add: isspace_def)
  have rws: "rows example_df ! 0 = [''Ring'' \<mapsto> Str ''Ring A'', ''Title'' \<mapsto> Str ''T1'']"
    "rows example_df ! 1 = [''Ring'' \<mapsto> Str ''  Ring   A '', ''Title'' \<mapsto> NaN]"
    "length (rows example_df) = 4"
    by (simp_all add: example_df_def)
  show ?thesis
    using normalize_ring_idempotent [of "''  Ring   A ''" "''  ''" "'' ''" "''   ''" "'' ''"
        "''Ring''" "''A''" 0 example_df 1 "''Ring''"] norm ws rws
    by (simp add: fillna_str_def)
qed

section \<open>Claims about the helpers of the spreadsheet editor\<close>

lemma example_topo_eval:
  "hostnames_of ''PAG-9,X-1'' = [''PAG-9'', ''X-1'']"
  "hostnames_of ''C-1, PAG-2 ,AG-3,,X-4'' = [''C-1'', ''PAG-2'', ''AG-3'', ''X-4'']"
  "find_pos ''PAG-2'' [''C-1'', ''PAG-2'', ''AG-3'', ''X-4''] = Some 1"
  "find_nearest_cag ''PAG-2'' example_topo = Some ''C-1''"
  "find_nearest_cag ''PAG-9'' example_topo = None"
  by (simp_all add: example_topo_def hostnames_of_def strip_def lstrip_def rstrip_def isspace_def
      nearest_in_chain_def search_right.simps is_cag_def)

text \<open>
  Claim C9. Let the queried name occur in a chain, at first at position \<open>pos\<close>, and in
  no chain before it. If the chain has a C/AG name at another position, the lookup
  returns the C/AG name nearest to \<open>pos\<close>, and of two that are equally near the left
  one. If it has none, the lookup goes on with the chains after it.
\<close>

theorem find_nearest_cag_closest:
  "list_all (\<lambda>c. pag \<notin> set (hostnames_of c)) pre
   \<and> find_pos pag (hostnames_of chain) = Some pos
   \<longrightarrow> (let hs = hostnames_of chain in
          ((\<exists>k < length hs. k \<noteq> pos \<and> is_cag (hs ! k))
             \<longrightarrow> (\<exists>j < length hs.
                    find_nearest_cag pag (pre @ chain # post) = Some (hs ! j)
                    \<and> j \<noteq> pos \<and> is_cag (hs ! j)
                    \<and> (\<forall>k < length hs. k \<noteq> pos \<and> is_cag (hs ! k)
                          \<longrightarrow> \<bar>int j - int pos\<bar> \<le> \<bar>int k - int pos\<bar>
                              \<and> (\<bar>int k - int pos\<bar> = \<bar>int j - int pos\<bar> \<longrightarrow> j \<le> k))))
          \<and> ((\<forall>k < length hs. k \<noteq> pos \<longrightarrow> \<not> is_cag (hs ! k))
             \<longrightarrow> find_nearest_cag pag (pre @ chain # post) = find_nearest_cag pag post))"
proof
  assume a: "list_all (\<lambda>c. pag \<notin> set (hostnames_of c)) pre
   \<and> find_pos pag (hostnames_of chain) = Some pos"
  let ?hs = "hostnames_of chain"
  from a have pos: "pos < length ?hs"
    using find_pos_Some by blast
  from a have "find_nearest_cag pag (pre @ chain # post) = find_nearest_cag pag (chain # post)"
    by (intro find_nearest_cag_skip) simp
  also from a have "\<dots>
      = (case nearest_in_chain ?hs pos of Some h \<Rightarrow> Some h | None \<Rightarrow> find_nearest_cag pag post)"
    by (intro find_nearest_cag_Cons) simp
  finally have eq: "find_nearest_cag pag (pre @ chain # post)
      = (case nearest_in_chain ?hs pos of Some h \<Rightarrow> Some h | None \<Rightarrow> find_nearest_cag pag post)" .
  have some: "\<exists>j < length ?hs.
                    find_nearest_cag pag (pre @ chain # post) = Some (?hs ! j)
                    \<and> j \<noteq> pos \<and> is_cag (?hs ! j)
                    \<and> (\<forall>k < length ?hs. k \<noteq> pos \<and> is_cag (?hs ! k)
                          \<longrightarrow> \<bar>int j - int pos\<bar> \<le> \<bar>int k - int pos\<bar>
                              \<and> (\<bar>int k - int pos\<bar> = \<bar>int j - int pos\<bar> \<longrightarrow> j \<le> k))"
    if "\<exists>k < length ?hs. k \<noteq> pos \<and> is_cag (?hs ! k)"
  proof -
    from that pos have "nearest_in_chain ?hs pos \<noteq> None"
      by (simp add: nearest_in_chain_None)
    then obtain h where h: "nearest_in_chain ?hs pos = Some h" by blast
    from nearest_in_chain_Some [OF pos h] obtain j where
      "j < length ?hs" "j \<noteq> pos" "?hs ! j = h" "is_cag h"
      "\<forall>k < length ?hs. k \<noteq> pos \<and> is_cag (?hs ! k)
            \<longrightarrow> \<bar>int j - int pos\<bar> \<le> \<bar>int k - int pos\<bar>
                \<and> (\<bar>int k - int pos\<bar> = \<bar>int j - int pos\<bar> \<longrightarrow> j \<le> k)"
      by blast
    with eq h show ?thesis by (intro exI [of _ j]) simp
  qed
  have none: "find_nearest_cag pag (pre @ chain # post) = find_nearest_cag pag post"
    if "\<forall>k < length ?hs. k \<noteq> pos \<longrightarrow> \<not> is_cag (?hs ! k)"
  proof -
    from that pos have "nearest_in_chain ?hs pos = None"
      by (simp add: nearest_in_chain_None)
    with eq show ?thesis by simp
  qed
  from some none show "let hs = hostnames_of chain in
          ((\<exists>k < length hs. k \<noteq> pos \<and> is_cag (hs ! k))
             \<longrightarrow> (\<exists>j < length hs.
                    find_nearest_cag pag (pre @ chain # post) = Some (hs ! j)
                    \<and> j \<noteq> pos \<and> is_cag (hs ! j)
                    \<and> (\<forall>k < length hs. k \<noteq> pos \<and> is_cag (hs ! k)
                          \<longrightarrow> \<bar>int j - int pos\<bar> \<le> \<bar>int k - int pos\<bar>
                              \<and> (\<bar>int k - int pos\<bar> = \<bar>int j - int pos\<bar> \<longrightarrow> j \<le> k))))
          \<and> ((\<forall>k < length hs. k \<noteq> pos \<longrightarrow> \<not> is_cag (hs ! k))
             \<longrightarrow> find_nearest_cag pag (pre @ chain # post) = find_nearest_cag pag post)"
    unfolding Let_def by blast
qed

theorem find_nearest_cag_closest_witness:
  "hostnames_of ''C-1, PAG-2 ,AG-3,,X-4'' = [''C-1'', ''PAG-2'', ''AG-3'', ''X-4'']
   \<and> find_pos ''PAG-2'' (hostnames_of ''C-1, PAG-2 ,AG-3,,X-4'') = Some 1
   \<and> is_cag ''C-1'' \<and> is_cag ''AG-3''
   \<and> find_nearest_cag ''PAG-2'' example_topo = Some ''C-1''"
proof -
  have "list_all (\<lambda>c. ''PAG-2'' \<notin> set (hostnames_of c)) [''PAG-9,X-1'']"
    by (simp add: example_topo_eval)
  moreover have "find_pos ''PAG-2'' (hostnames_of ''C-1, PAG-2 ,AG-3,,X-4'') = Some 1"
    by (simp add: example_topo_eval)
  ultimately show ?thesis
    using find_nearest_cag_closest [of "''PAG-2''" "[''PAG-9,X-1'']" "''C-1, PAG-2 ,AG-3,,X-4''" 1
        "[''AG-7,PAG-2'']"]
    by (simp add: example_topo_eval is_cag_def)
qed

lemma example_autofill:
  "api_excel_autofill_ring example_rows example_report 0 1
     = Inr ([[''h1'', ''Ring A''], [''h2'', ''Ring X''], [''H1 '', ''Ring A''], [''h3'']], 2, [''h3''])"
  "api_excel_autofill_ring example_rows example_report (- 1) 1 = Inl InvalidColumnIndices"
  by code_simp+

text \<open>
  Claim C10, as stated, fails. A target cell that holds \<^verbatim>\<open>NAN\<close> holds a value that is
  not empty and is not the text \<^verbatim>\<open>nan\<close>, and a target cell of three spaces holds a
  value that is not empty; both helpers compare the stripped cell in lower case, take
  both cells for empty and overwrite them.
\<close>

theorem autofill_overwrites_blank_spellings:
  "api_excel_autofill_ring [[''h1'', ''NAN''], [''h1'', ''   '']] [(''H1'', ''Ring A'')] 0 1
     = Inr ([[''h1'', ''Ring A''], [''h1'', ''Ring A'']], 2, [])
   \<and> api_excel_autofill_hostname [[''s1'', ''NAN''], [''s1'', ''   '']] [(''S1'', ''Host A'')] 0 1
     = Inr ([[''s1'', ''Host A''], [''s1'', ''Host A'']], 2, [])
   \<and> ''NAN'' \<noteq> [] \<and> ''NAN'' \<noteq> ''nan'' \<and> ''   '' \<noteq> [] \<and> ''   '' \<noteq> ''nan''"
proof -
  have "api_excel_autofill_ring [[''h1'', ''NAN''], [''h1'', ''   '']] [(''H1'', ''Ring A'')] 0 1
     = Inr ([[''h1'', ''Ring A''], [''h1'', ''Ring A'']], 2, [])"
    by code_simp
  moreover
  have "api_excel_autofill_hostname [[''s1'', ''NAN''], [''s1'', ''   '']] [(''S1'', ''Host A'')] 0 1
     = Inr ([[''s1'', ''Host A''], [''s1'', ''Host A'']], 2, [])"
    by code_simp
  ultimately show ?thesis by simp
qed

text \<open>
  Claim C10, amended. With column indices that are not negative, both auto-fill helpers
  return as many rows as they got. A row whose target cell, stripped, is neither empty
  nor \<^verbatim>\<open>nan\<close> in any letter case comes back as it was. A row that comes back changed
  had a target cell that is empty in this sense, a key cell that is not, and a non-empty
  value for the key in the lookup, and it differs from the old row by that value in the
  target cell.
\<close>

theorem autofill_never_overwrites:
  "0 \<le> key_col_index \<and> 0 \<le> target_col_index \<longrightarrow>
     (\<exists>rws' filled_count not_found.
        api_excel_autofill_ring rws report key_col_index target_col_index
          = Inr (rws', filled_count, not_found)
        \<and> length rws' = length rws
        \<and> (\<forall>i < length rws.
             (\<not> blank (cell_at (rws ! i) (nat target_col_index)) \<longrightarrow> rws' ! i = rws ! i)
             \<and> (rws' ! i \<noteq> rws ! i \<longrightarrow>
                  blank (cell_at (rws ! i) (nat target_col_index))
                  \<and> \<not> blank (cell_at (rws ! i) (nat key_col_index))
                  \<and> (\<exists>v. build_lookup report (lower (cell_at (rws ! i) (nat key_col_index))) = Some v
                         \<and> v \<noteq> [] \<and> rws' ! i = put_cell (rws ! i) (nat target_col_index) v))))
   \<and> (\<exists>rws' filled_count not_found.
        api_excel_autofill_hostname rws report key_col_index target_col_index
          = Inr (rws', filled_count, not_found)
        \<and> length rws' = length rws
        \<and> (\<forall>i < length rws.
             (\<not> blank (cell_at (rws ! i) (nat target_col_index)) \<longrightarrow> rws' ! i = rws ! i)
             \<and> (rws' ! i \<noteq> rws ! i \<longrightarrow>
                  blank (cell_at (rws ! i) (nat target_col_index))
                  \<and> \<not> blank (cell_at (rws ! i) (nat key_col_index))
                  \<and> (\<exists>v. build_lookup report (lower (cell_at (rws ! i) (nat key_col_index))) = Some v
                         \<and> v \<noteq> [] \<and> rws' ! i = put_cell (rws ! i) (nat target_col_index) v))))"
proof
  assume idx: "0 \<le> key_col_index \<and> 0 \<le> target_col_index"
  obtain rws' n nf where run:
    "autofill_rows (build_lookup report) (nat key_col_index) (nat target_col_index) rws 0 []
       = (rws', n, nf)"
    by (metis prod_cases3)
  note frame = autofill_rows_frame [OF run]
  from idx run have "api_excel_autofill_ring rws report key_col_index target_col_index
      = Inr (rws', n, take 20 nf)"
    by (simp add: api_excel_autofill_ring_def)
  moreover from idx run have "api_excel_autofill_hostname rws report key_col_index target_col_index
      = Inr (rws', n, take 20 nf)"
    by (simp add: api_excel_autofill_hostname_def)
  ultimately show
    "(\<exists>rws' filled_count not_found.
        api_excel_autofill_ring rws report key_col_index target_col_index
          = Inr (rws', filled_count, not_found)
        \<and> length rws' = length rws
        \<and> (\<forall>i < length rws.
             (\<not> blank (cell_at (rws ! i) (nat target_col_index)) \<longrightarrow> rws' ! i = rws ! i)
             \<and> (rws' ! i \<noteq> rws ! i \<longrightarrow>
                  blank (cell_at (rws ! i) (nat target_col_index))
                  \<and> \<not> blank (cell_at (rws ! i) (nat key_col_index))
                  \<and> (\<exists>v. build_lookup report (lower (cell_at (rws ! i) (nat key_col_index))) = Some v
                         \<and> v \<noteq> [] \<and> rws' ! i = put_cell (rws ! i) (nat target_col_index) v))))
   \<and> (\<exists>rws' filled_count not_found.
        api_excel_autofill_hostname rws report key_col_index target_col_index
          = Inr (rws', filled_count, not_found)
        \<and> length rws' = length rws
        \<and> (\<forall>i < length rws.
             (\<not> blank (cell_at (rws ! i) (nat target_col_index)) \<longrightarrow> rws' ! i = rws ! i)
             \<and> (rws' ! i \<noteq> rws ! i \<longrightarrow>
                  blank (cell_at (rws ! i) (nat target_col_index))
                  \<and> \<not> blank (cell_at (rws ! i) (nat key_col_index))
                  \<and> (\<exists>v. build_lookup report (lower (cell_at (rws ! i) (nat key_col_index))) = Some v
                         \<and> v \<noteq> [] \<and> rws' ! i = put_cell (rws ! i) (nat target_col_index) v))))"
    using frame by (intro conjI exI [of _ rws'] exI [of _ n] exI [of _ "take 20 nf"]) simp_all
qed

theorem autofill_never_overwrites_witness:
  "api_excel_autofill_ring example_rows example_report 0 1
     = Inr ([[''h1'', ''Ring A''], [''h2'', ''Ring X''], [''H1 '', ''Ring A''], [''h3'']], 2, [''h3''])
   \<and> api_excel_autofill_hostname example_rows example_report 0 1
     = Inr ([[''h1'', ''Ring A''], [''h2'', ''Ring X''], [''H1 '', ''Ring A''], [''h3'']], 2, [''h3''])
   \<and> \<not> blank (cell_at (example_rows ! 1) 1)
   \<and> blank (cell_at (example_rows ! 2) 1)"
proof -
  have "api_excel_autofill_hostname example_rows example_report 0 1
      = api_excel_autofill_ring example_rows example_report 0 1"
    by (simp add: api_excel_autofill_hostname_def api_excel_autofill_ring_def)
  moreover have "\<not> blank (cell_at (example_rows ! 1) 1)" "blank (cell_at (example_rows ! 2) 1)"
    by code_simp+
  ultimately show ?thesis
    using autofill_never_overwrites [of 0 1 example_rows example_report]
    by (simp add: example_autofill)
qed

end
